theory Spec2Isabelle
  imports Main "HOL-Library.Multiset"
begin

section \<open>Data model of \<^verbatim>\<open>src/network/core/tcp_connect.cpp\<close>\<close>

text \<open>
  A socket handle. \<^verbatim>\<open>INVALID_SOCKET\<close> is a macro of the operating system's headers
  (not part of the sources); the usual value \<open>-1\<close> is taken. Nothing below depends on
  the value, only on comparing a handle with it.
\<close>

type_synonym SOCKET = int

definition INVALID_SOCKET :: SOCKET where
  "INVALID_SOCKET = - 1"

text \<open>
  The identity of a \<^verbatim>\<open>TCPConnecter\<close> object, that is the value of a
  \<^verbatim>\<open>TCPConnecter *\<close>. Every \<^verbatim>\<open>new\<close> yields an identity that was never used
  before (field \<open>next_id\<close> of the state): the reuse of a freed address by the
  allocator is not modelled.
\<close>

type_synonym ptr = nat

text \<open>
  The members of \<^verbatim>\<open>TCPConnecter\<close> that the constructor initialises. The address
  type \<^verbatim>\<open>NetworkAddress\<close> is left open (\<open>'a\<close>). The member \<^verbatim>\<open>thread\<close> is only
  handed to \<^verbatim>\<open>ThreadObject::New\<close>; the started workers are kept in the state.
\<close>

record 'a TCPConnecter =
  connected :: bool
  aborted :: bool
  killed :: bool
  sock :: SOCKET
  address :: 'a

text \<open>What the dispatcher does to the outside world, in the order it does it.\<close>

datatype event =
    Ev_closesocket SOCKET
  | Ev_OnConnect ptr SOCKET
  | Ev_OnFailure ptr
  | Ev_delete ptr

datatype error = OutOfFuel | DanglingPointer | NoSuchThread

text \<open>
  The state of the subsystem: the live objects, the registry
  \<^verbatim>\<open>_tcp_connecters\<close> (a \<^verbatim>\<open>SmallVector<TCPConnecter *, 1>\<close>, as the list of its
  items), the workers that \<^verbatim>\<open>ThreadObject::New\<close> started and that have not run
  \<^verbatim>\<open>ThreadEntry\<close> yet, and the trace of events.
\<close>

record 'a state =
  heap :: "ptr \<rightharpoonup> 'a TCPConnecter"
  tcp_connecters :: "ptr list"
  threads :: "ptr set"
  trace :: "event list"
  next_id :: ptr

definition init_state :: "'a state" where
  "init_state = \<lparr>heap = Map.empty, tcp_connecters = [], threads = {}, trace = [], next_id = 0\<rparr>"

text \<open>
  What \<^verbatim>\<open>CheckCallbacks\<close> calls and the sources do not define:
  \<^item> \<open>Erase\<close>: \<^verbatim>\<open>SmallVector::Erase\<close> (\<^verbatim>\<open>core/smallvec_type.hpp\<close>), given the
    position of the item and the items, returning the items that are left;
  \<^item> \<open>OnConnect\<close>, \<open>OnFailure\<close>: the virtual handlers of the subclass, which may
    call back into the subsystem.
\<close>

record 'a env =
  Erase :: "nat \<Rightarrow> ptr list \<Rightarrow> ptr list"
  OnConnect :: "ptr \<Rightarrow> SOCKET \<Rightarrow> 'a state \<Rightarrow> 'a state"
  OnFailure :: "ptr \<Rightarrow> 'a state \<Rightarrow> 'a state"

text \<open>
  Modelled from the spec: \<^verbatim>\<open>SmallVector::Erase\<close> is defined in
  \<^verbatim>\<open>core/smallvec_type.hpp\<close>, which is not among the sources. The spec says of it
  only that reaping removes the entry from the registry, so the erase is a parameter
  of the dispatcher (the field \<open>Erase\<close> above). Two ways to erase from an array:
  \<^item> \<open>Erase_swap\<close> overwrites the item with the last one and drops the last slot,
    \<^verbatim>\<open>*item = this->data[--this->items]\<close>. As far as is known here this is what
    the header of OpenTTD does; it cannot be read off the sources at hand.
  \<^item> \<open>Erase_shift\<close> moves every later item one slot down.

  \<open>Erase_ok\<close> is what both guarantee: the slots before the erased one keep their
  items, and the slots from it on hold the later items, in some order.
  \<open>Erase_keeps_order\<close> says that the order of the later items is kept as well.
\<close>

definition Erase_swap :: "nat \<Rightarrow> ptr list \<Rightarrow> ptr list" where
  "Erase_swap i xs = butlast (xs[i := last xs])"


definition Erase_ok :: "(nat \<Rightarrow> ptr list \<Rightarrow> ptr list) \<Rightarrow> bool" where
  "Erase_ok E = (\<forall>i xs. i < length xs \<longrightarrow>
     take i (E i xs) = take i xs \<and> mset (drop i (E i xs)) = mset (drop (Suc i) xs))"

definition Erase_keeps_order :: "(nat \<Rightarrow> ptr list \<Rightarrow> ptr list) \<Rightarrow> bool" where
  "Erase_keeps_order E = (\<forall>i xs. i < length xs \<longrightarrow> E i xs = take i xs @ drop (Suc i) xs)"

text \<open>Handlers that do not call back into the subsystem.\<close>

definition no_reentry :: "'a env \<Rightarrow> bool" where
  "no_reentry env = ((\<forall>p sk s. OnConnect env p sk s = s) \<and> (\<forall>p s. OnFailure env p s = s))"

definition quiet_env :: "(nat \<Rightarrow> ptr list \<Rightarrow> ptr list) \<Rightarrow> 'a env" where
  "quiet_env E = \<lparr>Erase = E, OnConnect = (\<lambda>p sk s. s), OnFailure = (\<lambda>p s. s)\<rparr>"

section \<open>The connection attempt\<close>

text \<open>
  \<^verbatim>\<open>TCPConnecter::Connect\<close> (lines 37 to 45). The argument \<open>r\<close> is what
  \<^verbatim>\<open>this->address.Connect()\<close> returns (\<^verbatim>\<open>NetworkAddress::Connect\<close> is not among the
  sources).
\<close>

definition Connect :: "SOCKET \<Rightarrow> 'a TCPConnecter \<Rightarrow> 'a TCPConnecter" where
  "Connect r c =
     (let c1 = c\<lparr>sock := r\<rparr> in
      if sock c1 = INVALID_SOCKET then c1\<lparr>aborted := True\<rparr> else c1\<lparr>connected := True\<rparr>)"

text \<open>
  \<^verbatim>\<open>TCPConnecter::ThreadEntry\<close> (lines 48 to 51):
  \<^verbatim>\<open>static_cast<TCPConnecter*>(param)->Connect()\<close>. A \<open>param\<close> that is not a live
  object is an error of the model.
\<close>

definition ThreadEntry :: "SOCKET \<Rightarrow> ptr \<Rightarrow> 'a state \<Rightarrow> error + 'a state" where
  "ThreadEntry r param s =
     (case heap s param of
        None \<Rightarrow> Inl DanglingPointer
      | Some c \<Rightarrow> Inr (s\<lparr>heap := (heap s)(param \<mapsto> Connect r c)\<rparr>))"

text \<open>
  The constructor (lines 24 to 35), on the object \<open>this\<close>. \<open>started\<close> is what
  \<^verbatim>\<open>ThreadObject::New\<close> returns; when it is true the worker is started and runs
  \<^verbatim>\<open>ThreadEntry\<close> later, when it is false the constructor calls \<^verbatim>\<open>Connect\<close>
  itself.
\<close>

definition TCPConnecter_ctor :: "bool \<Rightarrow> SOCKET \<Rightarrow> ptr \<Rightarrow> 'a \<Rightarrow> 'a state \<Rightarrow> 'a state" where
  "TCPConnecter_ctor started r this addr s =
     (let c = \<lparr>connected = False, aborted = False, killed = False,
                sock = INVALID_SOCKET, address = addr\<rparr>;
          s1 = s\<lparr>heap := (heap s)(this \<mapsto> c), tcp_connecters := tcp_connecters s @ [this]\<rparr>
      in if \<not> started then s1\<lparr>heap := (heap s1)(this \<mapsto> Connect r c)\<rparr>
         else s1\<lparr>threads := insert this (threads s1)\<rparr>)"

text \<open>\<^verbatim>\<open>new TCPConnecter(addr)\<close>: a fresh object, then the constructor.\<close>

definition new_TCPConnecter :: "bool \<Rightarrow> SOCKET \<Rightarrow> 'a \<Rightarrow> 'a state \<Rightarrow> 'a state" where
  "new_TCPConnecter started r addr s =
     TCPConnecter_ctor started r (next_id s) addr (s\<lparr>next_id := Suc (next_id s)\<rparr>)"

section \<open>The dispatcher\<close>

text \<open>
  The statements \<^verbatim>\<open>closesocket(cur->sock)\<close>, \<^verbatim>\<open>delete cur\<close>,
  \<^verbatim>\<open>cur->OnConnect(cur->sock)\<close>, \<^verbatim>\<open>cur->OnFailure()\<close> and
  \<^verbatim>\<open>_tcp_connecters.Erase(iter)\<close>. Each of the first four is recorded in the trace;
  a handler then does to the state what the environment says. Deleting an object
  that is not live is an error of the model.
\<close>

definition closesocket :: "SOCKET \<Rightarrow> 'a state \<Rightarrow> 'a state" where
  "closesocket sk s = s\<lparr>trace := trace s @ [Ev_closesocket sk]\<rparr>"

definition delete_obj :: "ptr \<Rightarrow> 'a state \<Rightarrow> error + 'a state" where
  "delete_obj p s =
     (if p \<in> dom (heap s)
      then Inr (s\<lparr>heap := (heap s)(p := None), trace := trace s @ [Ev_delete p]\<rparr>)
      else Inl DanglingPointer)"

definition call_OnConnect :: "'a env \<Rightarrow> ptr \<Rightarrow> SOCKET \<Rightarrow> 'a state \<Rightarrow> 'a state" where
  "call_OnConnect env p sk s = OnConnect env p sk (s\<lparr>trace := trace s @ [Ev_OnConnect p sk]\<rparr>)"

definition call_OnFailure :: "'a env \<Rightarrow> ptr \<Rightarrow> 'a state \<Rightarrow> 'a state" where
  "call_OnFailure env p s = OnFailure env p (s\<lparr>trace := trace s @ [Ev_OnFailure p]\<rparr>)"

definition erase_at :: "'a env \<Rightarrow> nat \<Rightarrow> 'a state \<Rightarrow> 'a state" where
  "erase_at env i s = s\<lparr>tcp_connecters := Erase env i (tcp_connecters s)\<rparr>"

text \<open>
  One run of the body of the loop of \<^verbatim>\<open>CheckCallbacks\<close> (lines 56 to 75), with the iterator at slot
  \<open>i\<close> (the loop has checked \<^verbatim>\<open>iter < End()\<close>). It returns the slot the iterator is
  at afterwards and the new state. The iterator is a position in the vector: the
  storage of the vector moving while a handler runs is not modelled.
\<close>

definition CheckCallbacks_body :: "'a env \<Rightarrow> nat \<Rightarrow> 'a state \<Rightarrow> error + (nat \<times> 'a state)" where
  "CheckCallbacks_body env i s =
     (let cur = tcp_connecters s ! i in
      case heap s cur of
        None \<Rightarrow> Inl DanglingPointer
      | Some c \<Rightarrow>
          if (connected c \<or> aborted c) \<and> killed c then
            (let s1 = erase_at env i s;
                 s2 = (if sock c \<noteq> INVALID_SOCKET then closesocket (sock c) s1 else s1)
             in case delete_obj cur s2 of Inl e \<Rightarrow> Inl e | Inr s3 \<Rightarrow> Inr (i, s3))
          else if connected c then
            (let s1 = erase_at env i s;
                 s2 = call_OnConnect env cur (sock c) s1
             in case delete_obj cur s2 of Inl e \<Rightarrow> Inl e | Inr s3 \<Rightarrow> Inr (i, s3))
          else if aborted c then
            (let s1 = erase_at env i s;
                 s2 = call_OnFailure env cur s1
             in case delete_obj cur s2 of Inl e \<Rightarrow> Inl e | Inr s3 \<Rightarrow> Inr (i, s3))
          else Inr (Suc i, s))"

text \<open>
  The loop of \<^verbatim>\<open>CheckCallbacks\<close> (lines 53 to 77). A handler may register new attempts, so the loop
  need not end: it runs on fuel, one unit for each test of \<^verbatim>\<open>iter < End()\<close>.
\<close>

fun CheckCallbacks_loop :: "nat \<Rightarrow> 'a env \<Rightarrow> nat \<Rightarrow> 'a state \<Rightarrow> error + 'a state" where
  "CheckCallbacks_loop 0 env i s = Inl OutOfFuel"
| "CheckCallbacks_loop (Suc n) env i s =
     (if i < length (tcp_connecters s) then
        (case CheckCallbacks_body env i s of
           Inl e \<Rightarrow> Inl e
         | Inr (i', s') \<Rightarrow> CheckCallbacks_loop n env i' s')
      else Inr s)"

definition CheckCallbacks :: "nat \<Rightarrow> 'a env \<Rightarrow> 'a state \<Rightarrow> error + 'a state" where
  "CheckCallbacks fuel env s = CheckCallbacks_loop fuel env 0 s"

text \<open>
  \<^verbatim>\<open>KillAll\<close> (lines 79 to 82): \<^verbatim>\<open>(*iter)->killed = true\<close> for every item of the
  registry, from the first to the last. An item that is not a live object is an
  error of the model.
\<close>

fun KillAll_loop :: "ptr list \<Rightarrow> (ptr \<rightharpoonup> 'a TCPConnecter) \<Rightarrow> error + (ptr \<rightharpoonup> 'a TCPConnecter)" where
  "KillAll_loop [] h = Inr h"
| "KillAll_loop (p # ps) h =
     (case h p of
        None \<Rightarrow> Inl DanglingPointer
      | Some c \<Rightarrow> KillAll_loop ps (h(p \<mapsto> c\<lparr>killed := True\<rparr>)))"

definition KillAll :: "'a state \<Rightarrow> error + 'a state" where
  "KillAll s =
     (case KillAll_loop (tcp_connecters s) (heap s) of
        Inl e \<Rightarrow> Inl e
      | Inr h \<Rightarrow> Inr (s\<lparr>heap := h\<rparr>))"

section \<open>Runs of the subsystem\<close>

text \<open>
  What can happen to the subsystem: the caller constructs an attempt, a started
  worker runs (once), the main loop polls, the caller kills all attempts.
\<close>

datatype 'a action =
    Create bool SOCKET 'a
  | Worker ptr SOCKET
  | Poll nat
  | Kill

fun step :: "'a env \<Rightarrow> 'a action \<Rightarrow> 'a state \<Rightarrow> error + 'a state" where
  "step env (Create started r addr) s = Inr (new_TCPConnecter started r addr s)"
| "step env (Worker p r) s =
     (if p \<in> threads s then ThreadEntry r p (s\<lparr>threads := threads s - {p}\<rparr>)
      else Inl NoSuchThread)"
| "step env (Poll fuel) s = CheckCallbacks fuel env s"
| "step env Kill s = KillAll s"

fun run :: "'a env \<Rightarrow> 'a action list \<Rightarrow> 'a state \<Rightarrow> error + 'a state" where
  "run env [] s = Inr s"
| "run env (a # as) s = (case step env a s of Inl e \<Rightarrow> Inl e | Inr s' \<Rightarrow> run env as s')"

section \<open>Reading states and traces\<close>

definition pending :: "(ptr \<rightharpoonup> 'a TCPConnecter) \<Rightarrow> ptr \<Rightarrow> bool" where
  "pending h p = (case h p of None \<Rightarrow> False | Some c \<Rightarrow> \<not> connected c \<and> \<not> aborted c)"

definition terminal :: "(ptr \<rightharpoonup> 'a TCPConnecter) \<Rightarrow> ptr \<Rightarrow> bool" where
  "terminal h p = (case h p of None \<Rightarrow> False | Some c \<Rightarrow> connected c \<or> aborted c)"


text \<open>The events of reaping the attempt \<open>p\<close>, read from the object as it is in \<open>h\<close>.\<close>

definition reap_events :: "(ptr \<rightharpoonup> 'a TCPConnecter) \<Rightarrow> ptr \<Rightarrow> event list" where
  "reap_events h p =
     (case h p of
        None \<Rightarrow> []
      | Some c \<Rightarrow>
          if killed c then
            (if sock c \<noteq> INVALID_SOCKET then [Ev_closesocket (sock c)] else []) @ [Ev_delete p]
          else if connected c then [Ev_OnConnect p (sock c), Ev_delete p]
          else [Ev_OnFailure p, Ev_delete p])"

text \<open>The attempts whose handlers a trace calls, in the order of the calls.\<close>

fun notified :: "event list \<Rightarrow> ptr list" where
  "notified [] = []"
| "notified (Ev_OnConnect p sk # es) = p # notified es"
| "notified (Ev_OnFailure p # es) = p # notified es"
| "notified (e # es) = notified es"

fun deleted :: "event list \<Rightarrow> ptr list" where
  "deleted [] = []"
| "deleted (Ev_delete p # es) = p # deleted es"
| "deleted (e # es) = deleted es"

text \<open>A registry without duplicates whose items are live objects.\<close>

definition wf_state :: "'a state \<Rightarrow> bool" where
  "wf_state s = (distinct (tcp_connecters s) \<and> set (tcp_connecters s) \<subseteq> dom (heap s))"

text \<open>
  The state after the attempts \<open>ps\<close> were reaped, in this order, and \<open>ys\<close> was left
  in the registry.
\<close>

definition reaped :: "'a state \<Rightarrow> ptr list \<Rightarrow> ptr list \<Rightarrow> 'a state" where
  "reaped s ys ps =
     s\<lparr>tcp_connecters := ys,
       heap := heap s |` (- set ps),
       trace := trace s @ concat (map (reap_events (heap s)) ps)\<rparr>"

text \<open>The events of a trace that name the attempt \<open>p\<close>.\<close>

fun about :: "ptr \<Rightarrow> event \<Rightarrow> bool" where
  "about p (Ev_OnConnect q sk) = (q = p)"
| "about p (Ev_OnFailure q) = (q = p)"
| "about p (Ev_delete q) = (q = p)"
| "about p (Ev_closesocket sk) = False"

definition events_of :: "ptr \<Rightarrow> event list \<Rightarrow> event list" where
  "events_of p tr = filter (about p) tr"



text \<open>
  What every live object satisfies between the steps of a run: the socket is valid
  exactly when \<^verbatim>\<open>connected\<close> is set, and \<^verbatim>\<open>connected\<close> and \<^verbatim>\<open>aborted\<close> are not both
  set.
\<close>

definition obj_ok :: "'a TCPConnecter \<Rightarrow> bool" where
  "obj_ok c = ((sock c \<noteq> INVALID_SOCKET) = connected c \<and> \<not> (connected c \<and> aborted c))"

text \<open>
  The invariant of runs: identities that are live were handed out, a started
  worker that has not run belongs to a pending attempt, and every live object is
  \<open>obj_ok\<close>.
\<close>

definition sys_inv :: "'a state \<Rightarrow> bool" where
  "sys_inv s = (dom (heap s) \<subseteq> {..<next_id s}
     \<and> (\<forall>p\<in>threads s. pending (heap s) p)
     \<and> (\<forall>p c. heap s p = Some c \<longrightarrow> obj_ok c))"

text \<open>
  For handlers that call back into the subsystem: a well-formed registry whose live
  objects all have identities that were handed out.
\<close>

definition alloc_ok :: "'a state \<Rightarrow> bool" where
  "alloc_ok s = (wf_state s \<and> dom (heap s) \<subseteq> {..<next_id s})"

text \<open>
  What a handler that calls back may do: construct attempts and set flags. It does
  not delete an object, does not register or unregister an attempt that exists when
  it is called, and does nothing that the trace records.
\<close>

definition handler_ok :: "('a state \<Rightarrow> 'a state) \<Rightarrow> bool" where
  "handler_ok f = (\<forall>s. alloc_ok s \<longrightarrow>
       alloc_ok (f s) \<and> trace (f s) = trace s \<and> next_id s \<le> next_id (f s)
     \<and> (\<forall>p. p < next_id s \<longrightarrow>
           (p \<in> dom (heap (f s))) = (p \<in> dom (heap s))
         \<and> (p \<in> set (tcp_connecters (f s))) = (p \<in> set (tcp_connecters s))))"

definition reentrant_ok :: "'a env \<Rightarrow> bool" where
  "reentrant_ok env =
     ((\<forall>p sk. handler_ok (OnConnect env p sk)) \<and> (\<forall>p. handler_ok (OnFailure env p)))"

text \<open>
  Two environments with the same \<^verbatim>\<open>Erase\<close> whose handlers do the same in every
  state in which the attempt of the handler is not registered.
\<close>

definition agree_unregistered :: "'a env \<Rightarrow> 'a env \<Rightarrow> bool" where
  "agree_unregistered env env' =
     (Erase env' = Erase env
      \<and> (\<forall>p sk s. p \<notin> set (tcp_connecters s) \<longrightarrow> OnConnect env' p sk s = OnConnect env p sk s)
      \<and> (\<forall>p s. p \<notin> set (tcp_connecters s) \<longrightarrow> OnFailure env' p s = OnFailure env p s))"

text \<open>No attempt was notified twice, and every notified attempt is deleted.\<close>

definition notified_once :: "'a state \<Rightarrow> bool" where
  "notified_once s =
     (distinct (notified (trace s))
      \<and> (\<forall>p\<in>set (notified (trace s)). p < next_id s \<and> p \<notin> dom (heap s)))"

section \<open>Example states\<close>

text \<open>
  Four attempts, registered in the order 0, 1, 2, 3: attempt 0 connected and was
  killed, attempt 1 connected, the worker of attempt 2 has not run yet, attempt 3
  failed. \<open>demo_acts\<close> is a run that leads there.
\<close>

definition demo_env :: "nat env" where
  "demo_env = quiet_env Erase_swap"

definition demo_acts :: "nat action list" where
  "demo_acts =
     [Create False 9 100, Kill, Create False 5 101, Create True 0 102, Create False (- 1) 103]"

definition s_demo :: "nat state" where
  "s_demo =
     \<lparr>heap = [0 \<mapsto> \<lparr>connected = True, aborted = False, killed = True, sock = 9, address = 100\<rparr>,
              1 \<mapsto> \<lparr>connected = True, aborted = False, killed = False, sock = 5, address = 101\<rparr>,
              2 \<mapsto> \<lparr>connected = False, aborted = False, killed = False, sock = - 1, address = 102\<rparr>,
              3 \<mapsto> \<lparr>connected = False, aborted = True, killed = False, sock = - 1, address = 103\<rparr>],
      tcp_connecters = [0, 1, 2, 3], threads = {2}, trace = [], next_id = 4\<rparr>"

text \<open>The state \<open>s_demo\<close> after \<^verbatim>\<open>KillAll\<close>: every attempt is killed.\<close>

definition s_demo_killed :: "nat state" where
  "s_demo_killed =
     s_demo\<lparr>heap :=
       [0 \<mapsto> \<lparr>connected = True, aborted = False, killed = True, sock = 9, address = 100\<rparr>,
        1 \<mapsto> \<lparr>connected = True, aborted = False, killed = True, sock = 5, address = 101\<rparr>,
        2 \<mapsto> \<lparr>connected = False, aborted = False, killed = True, sock = - 1, address = 102\<rparr>,
        3 \<mapsto> \<lparr>connected = False, aborted = True, killed = True, sock = - 1, address = 103\<rparr>]\<rparr>"





section \<open>The registry's erase\<close>




lemma Erase_swap_take:
  assumes "i < length xs"
  shows "take i (Erase_swap i xs) = take i xs"
  using assms by (auto simp: Erase_swap_def butlast_conv_take min_def)

lemma Erase_swap_drop:
  assumes "i < length xs"
  shows "mset (drop i (Erase_swap i xs)) = mset (drop (Suc i) xs)"
proof (cases "Suc i = length xs")
  case True
  then show ?thesis by (simp add: Erase_swap_def)
next
  case False
  define zs where "zs = drop (Suc i) xs"
  from False assms have nz: "zs \<noteq> []" by (simp add: zs_def)
  have l: "last xs = last zs" using nz by (simp add: zs_def)
  have "drop i (xs[i := last xs]) = last xs # zs"
    using assms by (simp add: zs_def upd_conv_take_nth_drop)
  then have "drop i (Erase_swap i xs) = last zs # butlast zs"
    using nz l by (simp add: Erase_swap_def drop_butlast)
  moreover have "mset (last zs # butlast zs) = mset zs"
    using nz by (metis append_butlast_last_id mset.simps(2) mset_append union_mset_add_mset_right add.right_neutral mset.simps(1) add.commute)
  ultimately show ?thesis by (simp add: zs_def)
qed

lemma Erase_swap_ok: "Erase_ok Erase_swap"
  by (simp add: Erase_ok_def Erase_swap_take Erase_swap_drop)

lemma Erase_ok_mset:
  assumes "Erase_ok E" "i < length xs"
  shows "mset (E i xs) = mset xs - {#xs ! i#}"
proof -
  have "mset (E i xs) = mset (take i (E i xs)) + mset (drop i (E i xs))"
    by (metis append_take_drop_id mset_append)
  also have "\<dots> = mset (take i xs) + mset (drop (Suc i) xs)"
    using assms by (simp add: Erase_ok_def)
  finally have a: "mset (E i xs) = mset (take i xs) + mset (drop (Suc i) xs)" .
  have "xs = take i xs @ xs ! i # drop (Suc i) xs"
    using assms(2) by (simp add: id_take_nth_drop [symmetric])
  then have "mset xs = mset (take i xs) + mset (drop (Suc i) xs) + {#xs ! i#}"
    by (metis mset_append mset.simps(2) union_mset_add_mset_right add_mset_add_single)
  with a show ?thesis by simp
qed

lemma Erase_ok_length:
  assumes "Erase_ok E" "i < length xs"
  shows "length (E i xs) = length xs - 1"
  using Erase_ok_mset [OF assms] assms(2)
  by (metis size_mset size_Diff_singleton nth_mem_mset)

lemma Erase_ok_split:
  assumes "Erase_ok E" "i < length xs"
  obtains ys where "E i xs = take i xs @ ys" "mset ys = mset (drop (Suc i) xs)"
proof -
  have t: "take i (E i xs) = take i xs"
    using assms by (simp add: Erase_ok_def)
  have "take i xs @ drop i (E i xs) = E i xs"
    by (subst t [symmetric]) (rule append_take_drop_id)
  then have "E i xs = take i xs @ drop i (E i xs)" by (rule sym)
  moreover have "mset (drop i (E i xs)) = mset (drop (Suc i) xs)"
    using assms by (simp add: Erase_ok_def)
  ultimately show thesis using that by blast
qed

lemma Erase_ok_distinct:
  assumes "Erase_ok E" "i < length xs" "distinct xs"
  shows "distinct (E i xs)" and "set (E i xs) = set xs - {xs ! i}"
proof -
  obtain ys where e: "E i xs = take i xs @ ys" and m: "mset ys = mset (drop (Suc i) xs)"
    using Erase_ok_split [OF assms(1,2)] by blast
  have x: "xs = take i xs @ xs ! i # drop (Suc i) xs"
    using assms(2) by (simp add: id_take_nth_drop [symmetric])
  have d: "distinct (take i xs @ xs ! i # drop (Suc i) xs)" using assms(3) x by simp
  have sy: "set ys = set (drop (Suc i) xs)" using m by (rule mset_eq_setD)
  have dy: "distinct ys = distinct (drop (Suc i) xs)" using m by (rule mset_eq_imp_distinct_iff)
  show "distinct (E i xs)" using d by (auto simp: e sy dy)
  have "set xs = set (take i xs) \<union> {xs ! i} \<union> set (drop (Suc i) xs)"
    by (subst x) auto
  moreover have "xs ! i \<notin> set (take i xs)" "xs ! i \<notin> set (drop (Suc i) xs)"
    using d by auto
  ultimately show "set (E i xs) = set xs - {xs ! i}" by (auto simp: e sy)
qed

section \<open>One poll, when the handlers do not re-enter\<close>

lemma reaped_Nil: "reaped s (tcp_connecters s) [] = s"
  by (rule state.equality) (simp_all add: reaped_def restrict_map_def)

lemma pending_not_terminal: "p \<in> dom h \<Longrightarrow> pending h p = (\<not> terminal h p)"
  by (auto simp: pending_def terminal_def)

lemma body_pending:
  assumes "pending (heap s) (tcp_connecters s ! i)"
  shows "CheckCallbacks_body env i s = Inr (Suc i, s)"
  using assms by (auto simp: CheckCallbacks_body_def pending_def Let_def split: option.splits)

lemma body_terminal:
  assumes "no_reentry env" "terminal (heap s) (tcp_connecters s ! i)"
  shows "CheckCallbacks_body env i s =
    Inr (i, s\<lparr>tcp_connecters := Erase env i (tcp_connecters s),
              heap := (heap s)(tcp_connecters s ! i := None),
              trace := trace s @ reap_events (heap s) (tcp_connecters s ! i)\<rparr>)"
  using assms
  by (auto simp: CheckCallbacks_body_def terminal_def no_reentry_def Let_def erase_at_def
      closesocket_def delete_obj_def call_OnConnect_def call_OnFailure_def reap_events_def
      split: option.splits)

lemma terminal_upd_other: "p \<noteq> q \<Longrightarrow> terminal (h(q := v)) p = terminal h p"
  by (simp add: terminal_def)

lemma pending_upd_other: "p \<noteq> q \<Longrightarrow> pending (h(q := v)) p = pending h p"
  by (simp add: pending_def)

lemma reap_events_upd_other: "p \<noteq> q \<Longrightarrow> reap_events (h(q := v)) p = reap_events h p"
  by (simp add: reap_events_def)

lemma reaped_step:
  assumes "cur \<notin> set ps"
  shows "reaped (s\<lparr>tcp_connecters := zs, heap := (heap s)(cur := None),
                  trace := trace s @ reap_events (heap s) cur\<rparr>) ys ps
       = reaped s ys (cur # ps)"
proof -
  have m: "map (reap_events ((heap s)(cur := None))) ps = map (reap_events (heap s)) ps"
    using assms by (intro map_cong) (auto simp: reap_events_def)
  show ?thesis
    by (rule state.equality) (auto simp: reaped_def m restrict_map_def fun_eq_iff)
qed

lemma filter_mset_cong_set:
  assumes "mset ys = mset zs" "\<And>x. x \<in> set zs \<Longrightarrow> P x = Q x"
  shows "mset (filter P ys) = mset (filter Q zs)"
proof -
  have "mset (filter P ys) = filter_mset P (mset ys)" by simp
  also have "\<dots> = filter_mset P (mset zs)" using assms(1) by simp
  also have "\<dots> = filter_mset Q (mset zs)"
    using assms(2) by (intro filter_mset_cong) auto
  finally show ?thesis by simp
qed

lemma loop_reaps:
  assumes E: "Erase_ok (Erase env)" and H: "no_reentry env"
  shows "wf_state s \<Longrightarrow> i \<le> length (tcp_connecters s) \<Longrightarrow>
    length (tcp_connecters s) - i < fuel \<Longrightarrow>
    \<exists>ps qs. CheckCallbacks_loop fuel env i s = Inr (reaped s (take i (tcp_connecters s) @ qs) ps)
      \<and> mset ps = mset (filter (terminal (heap s)) (drop i (tcp_connecters s)))
      \<and> mset qs = mset (filter (pending (heap s)) (drop i (tcp_connecters s)))
      \<and> (Erase_keeps_order (Erase env) \<longrightarrow>
            ps = filter (terminal (heap s)) (drop i (tcp_connecters s))
          \<and> qs = filter (pending (heap s)) (drop i (tcp_connecters s)))"
proof (induction fuel arbitrary: i s)
  case 0
  then show ?case by simp
next
  case (Suc n)
  define xs where "xs = tcp_connecters s"
  define h where "h = heap s"
  show ?case
  proof (cases "i < length xs")
    case False
    with Suc.prems have "i = length xs" by (simp add: xs_def)
    then have "CheckCallbacks_loop (Suc n) env i s = Inr (reaped s (take i xs @ []) [])"
      by (simp add: xs_def reaped_Nil)
    then show ?thesis using \<open>i = length xs\<close> unfolding xs_def by (intro exI [of _ "[]"]) simp
  next
    case True
    define cur where "cur = xs ! i"
    have cur_in: "cur \<in> set xs" using True by (simp add: cur_def)
    then have cur_dom: "cur \<in> dom h" using Suc.prems(1) by (auto simp: wf_state_def xs_def h_def)
    have dx: "drop i xs = cur # drop (Suc i) xs"
      using True by (simp add: cur_def Cons_nth_drop_Suc)
    have dist: "distinct xs" using Suc.prems(1) by (simp add: wf_state_def xs_def)
    have cur_notin: "cur \<notin> set (drop (Suc i) xs)"
      using dist True unfolding cur_def
      by (metis Cons_nth_drop_Suc distinct.simps(2) distinct_drop)
    show ?thesis
    proof (cases "pending h cur")
      case True
      note pend = this
      have b: "CheckCallbacks_body env i s = Inr (Suc i, s)"
        using pend by (intro body_pending) (simp add: h_def cur_def xs_def)
      have "length (tcp_connecters s) - Suc i < n" "Suc i \<le> length (tcp_connecters s)"
        using Suc.prems \<open>i < length xs\<close> by (auto simp: xs_def)
      from Suc.IH [OF Suc.prems(1) this(2) this(1)]
      obtain ps qs where
        l: "CheckCallbacks_loop n env (Suc i) s = Inr (reaped s (take (Suc i) xs @ qs) ps)" and
        p: "mset ps = mset (filter (terminal h) (drop (Suc i) xs))" and
        q: "mset qs = mset (filter (pending h) (drop (Suc i) xs))" and
        o: "Erase_keeps_order (Erase env) \<longrightarrow>
            ps = filter (terminal h) (drop (Suc i) xs) \<and> qs = filter (pending h) (drop (Suc i) xs)"
        unfolding xs_def h_def by blast
      have nt: "\<not> terminal h cur" using pend cur_dom by (simp add: pending_not_terminal)
      have "CheckCallbacks_loop (Suc n) env i s = Inr (reaped s (take i xs @ (cur # qs)) ps)"
        using \<open>i < length xs\<close> b l by (simp add: xs_def [symmetric] take_Suc_conv_app_nth cur_def)
      moreover have "mset ps = mset (filter (terminal h) (drop i xs))"
        using p nt by (simp add: dx)
      moreover have "mset (cur # qs) = mset (filter (pending h) (drop i xs))"
        using q pend by (simp add: dx)
      moreover have "Erase_keeps_order (Erase env) \<longrightarrow>
            ps = filter (terminal h) (drop i xs) \<and> cur # qs = filter (pending h) (drop i xs)"
        using o pend nt by (simp add: dx)
      ultimately show ?thesis unfolding xs_def h_def by blast
    next
      case False
      then have tm: "terminal h cur" using cur_dom by (simp add: pending_not_terminal)
      define ys where "ys = Erase env i xs"
      define s3 where "s3 = s\<lparr>tcp_connecters := ys, heap := h(cur := None),
              trace := trace s @ reap_events h cur\<rparr>"
      have b: "CheckCallbacks_body env i s = Inr (i, s3)"
        using body_terminal [OF H, of s i] tm
        by (simp add: h_def cur_def xs_def s3_def ys_def)
      have ys_d: "distinct ys" and ys_s: "set ys = set xs - {cur}"
        using Erase_ok_distinct [OF E True dist] by (simp_all add: ys_def cur_def)
      have ys_l: "length ys = length xs - 1"
        using Erase_ok_length [OF E True] by (simp add: ys_def)
      have ys_t: "take i ys = take i xs" and ys_m: "mset (drop i ys) = mset (drop (Suc i) xs)"
        using E True by (simp_all add: Erase_ok_def ys_def)
      have wf3: "wf_state s3"
        using Suc.prems(1) ys_d ys_s by (auto simp: wf_state_def s3_def xs_def h_def)
      have i3: "i \<le> length (tcp_connecters s3)" using True ys_l by (simp add: s3_def)
      have f3: "length (tcp_connecters s3) - i < n"
        using Suc.prems(3) True ys_l by (simp add: s3_def xs_def)
      have r3: "tcp_connecters s3 = ys" "heap s3 = h(cur := None)"
        by (simp_all add: s3_def)
      from Suc.IH [OF wf3 i3 f3]
      obtain ps qs where
        l: "CheckCallbacks_loop n env i s3 = Inr (reaped s3 (take i ys @ qs) ps)" and
        p: "mset ps = mset (filter (terminal (h(cur := None))) (drop i ys))" and
        q: "mset qs = mset (filter (pending (h(cur := None))) (drop i ys))" and
        o: "Erase_keeps_order (Erase env) \<longrightarrow>
            ps = filter (terminal (h(cur := None))) (drop i ys)
          \<and> qs = filter (pending (h(cur := None))) (drop i ys)"
        unfolding r3 by blast
      have p': "mset ps = mset (filter (terminal h) (drop (Suc i) xs))"
        unfolding p using ys_m cur_notin
        by (intro filter_mset_cong_set) (auto simp: terminal_def)
      have q': "mset qs = mset (filter (pending h) (drop (Suc i) xs))"
        unfolding q using ys_m cur_notin
        by (intro filter_mset_cong_set) (auto simp: pending_def)
      have "set ps \<subseteq> set (drop (Suc i) xs)"
        using p' by (metis filter_is_subset mset_eq_setD)
      then have cp: "cur \<notin> set ps" using cur_notin by auto
      have r: "reaped s3 (take i ys @ qs) ps = reaped s (take i xs @ qs) (cur # ps)"
        unfolding s3_def h_def ys_t by (rule reaped_step [OF cp])
      have "CheckCallbacks_loop (Suc n) env i s = Inr (reaped s (take i xs @ qs) (cur # ps))"
        using True b l r by (simp add: xs_def [symmetric])
      moreover have "mset (cur # ps) = mset (filter (terminal h) (drop i xs))"
        using p' tm by (simp add: dx)
      moreover have "mset qs = mset (filter (pending h) (drop i xs))"
        using q' False by (simp add: dx)
      moreover have "Erase_keeps_order (Erase env) \<longrightarrow>
            cur # ps = filter (terminal h) (drop i xs) \<and> qs = filter (pending h) (drop i xs)"
      proof
        assume k: "Erase_keeps_order (Erase env)"
        then have "ys = take i xs @ drop (Suc i) xs"
          using True by (simp add: Erase_keeps_order_def ys_def)
        then have dy: "drop i ys = drop (Suc i) xs" using True by simp
        have "filter (terminal (h(cur := None))) (drop (Suc i) xs) = filter (terminal h) (drop (Suc i) xs)"
          using cur_notin by (intro filter_cong) (auto simp: terminal_def)
        moreover have "filter (pending (h(cur := None))) (drop (Suc i) xs) = filter (pending h) (drop (Suc i) xs)"
          using cur_notin by (intro filter_cong) (auto simp: pending_def)
        ultimately show "cur # ps = filter (terminal h) (drop i xs) \<and> qs = filter (pending h) (drop i xs)"
          using o k tm False by (simp add: dx dy)
      qed
      ultimately show ?thesis unfolding xs_def h_def by blast
    qed
  qed
qed

lemma CheckCallbacks_reaps:
  assumes "Erase_ok (Erase env)" "no_reentry env" "wf_state s"
    "length (tcp_connecters s) < fuel"
  obtains ps qs where
    "CheckCallbacks fuel env s = Inr (reaped s qs ps)"
    "mset ps = mset (filter (terminal (heap s)) (tcp_connecters s))"
    "mset qs = mset (filter (pending (heap s)) (tcp_connecters s))"
    "Erase_keeps_order (Erase env) \<Longrightarrow> ps = filter (terminal (heap s)) (tcp_connecters s)"
    "Erase_keeps_order (Erase env) \<Longrightarrow> qs = filter (pending (heap s)) (tcp_connecters s)"
proof -
  from loop_reaps [OF assms(1,2,3), of 0 fuel] assms(4)
  obtain ps qs where
    "CheckCallbacks_loop fuel env 0 s = Inr (reaped s qs ps)"
    "mset ps = mset (filter (terminal (heap s)) (tcp_connecters s))"
    "mset qs = mset (filter (pending (heap s)) (tcp_connecters s))"
    "Erase_keeps_order (Erase env) \<longrightarrow>
       ps = filter (terminal (heap s)) (tcp_connecters s)
     \<and> qs = filter (pending (heap s)) (tcp_connecters s)"
    by auto
  then show thesis using that [of qs ps] by (simp add: CheckCallbacks_def)
qed

lemma events_of_append [simp]: "events_of p (xs @ ys) = events_of p xs @ events_of p ys"
  by (simp add: events_of_def)

lemma events_of_Nil [simp]: "events_of p [] = []"
  by (simp add: events_of_def)

lemma events_of_reap_other: "q \<noteq> p \<Longrightarrow> events_of p (reap_events h q) = []"
  by (auto simp: events_of_def reap_events_def split: option.splits)

lemma events_of_reaps_other:
  "p \<notin> set qs \<Longrightarrow> events_of p (concat (map (reap_events h) qs)) = []"
  by (induction qs) (auto simp: events_of_reap_other)

lemma reaps_mset_facts:
  assumes "wf_state s" "mset ps = mset (filter (terminal (heap s)) (tcp_connecters s))"
  shows "distinct ps" and "set ps = {p \<in> set (tcp_connecters s). terminal (heap s) p}"
proof -
  have "distinct (filter (terminal (heap s)) (tcp_connecters s))"
    using assms(1) by (simp add: wf_state_def)
  then show "distinct ps" using assms(2) by (metis mset_eq_imp_distinct_iff)
  have "set ps = set (filter (terminal (heap s)) (tcp_connecters s))"
    using assms(2) by (rule mset_eq_setD)
  then show "set ps = {p \<in> set (tcp_connecters s). terminal (heap s) p}" by auto
qed

lemma keeps_mset_facts:
  assumes "wf_state s" "mset qs = mset (filter (pending (heap s)) (tcp_connecters s))"
  shows "distinct qs" and "set qs = {p \<in> set (tcp_connecters s). pending (heap s) p}"
proof -
  have "distinct (filter (pending (heap s)) (tcp_connecters s))"
    using assms(1) by (simp add: wf_state_def)
  then show "distinct qs" using assms(2) by (metis mset_eq_imp_distinct_iff)
  have "set qs = set (filter (pending (heap s)) (tcp_connecters s))"
    using assms(2) by (rule mset_eq_setD)
  then show "set qs = {p \<in> set (tcp_connecters s). pending (heap s) p}" by auto
qed

lemma reaped_fields [simp]:
  "tcp_connecters (reaped s ys ps) = ys"
  "heap (reaped s ys ps) = heap s |` (- set ps)"
  "trace (reaped s ys ps) = trace s @ concat (map (reap_events (heap s)) ps)"
  "threads (reaped s ys ps) = threads s"
  "next_id (reaped s ys ps) = next_id s"
  by (simp_all add: reaped_def)

lemma Poll_terminal:
  assumes "Erase_ok (Erase env)" "no_reentry env" "wf_state s"
    "length (tcp_connecters s) < fuel"
    and "p \<in> set (tcp_connecters s)" "terminal (heap s) p"
  shows "\<exists>s' pre post. CheckCallbacks fuel env s = Inr s'
      \<and> trace s' = trace s @ pre @ reap_events (heap s) p @ post
      \<and> events_of p pre = [] \<and> events_of p post = []
      \<and> p \<notin> set (tcp_connecters s') \<and> heap s' p = None"
proof -
  from CheckCallbacks_reaps [OF assms(1-4)] obtain ps qs where
    c: "CheckCallbacks fuel env s = Inr (reaped s qs ps)" and
    p: "mset ps = mset (filter (terminal (heap s)) (tcp_connecters s))" and
    q: "mset qs = mset (filter (pending (heap s)) (tcp_connecters s))"
    by blast
  note P = reaps_mset_facts [OF assms(3) p]
  note Q = keeps_mset_facts [OF assms(3) q]
  have "p \<in> set ps" using P(2) assms(5,6) by simp
  then obtain ps1 ps2 where s: "ps = ps1 @ p # ps2" by (meson split_list)
  then have n: "p \<notin> set ps1" "p \<notin> set ps2" using P(1) by auto
  have "p \<in> dom (heap s)" using assms(3,5) by (auto simp: wf_state_def)
  then have "\<not> pending (heap s) p" using assms(6) by (simp add: pending_not_terminal)
  then have nq: "p \<notin> set qs" using Q(2) by simp
  let ?s' = "reaped s qs ps"
  have "trace ?s' = trace s @ concat (map (reap_events (heap s)) ps1) @ reap_events (heap s) p
      @ concat (map (reap_events (heap s)) ps2)"
    by (simp add: s)
  moreover have "events_of p (concat (map (reap_events (heap s)) ps1)) = []"
    "events_of p (concat (map (reap_events (heap s)) ps2)) = []"
    using n by (simp_all add: events_of_reaps_other)
  moreover have "p \<notin> set (tcp_connecters ?s')" using nq by simp
  moreover have "heap ?s' p = None" using \<open>p \<in> set ps\<close> by simp
  ultimately show ?thesis using c by blast
qed

lemma notified_append [simp]: "notified (xs @ ys) = notified xs @ notified ys"
  by (induction xs rule: notified.induct) simp_all

lemma deleted_append [simp]: "deleted (xs @ ys) = deleted xs @ deleted ys"
  by (induction xs rule: deleted.induct) simp_all



lemma deleted_reap: "terminal h p \<Longrightarrow> deleted (reap_events h p) = [p]"
  by (auto simp: reap_events_def terminal_def split: option.splits)


lemma deleted_reaps:
  "\<forall>p\<in>set ps. terminal h p \<Longrightarrow> deleted (concat (map (reap_events h) ps)) = ps"
  by (induction ps) (simp_all add: deleted_reap)

lemma count_list_distinct: "distinct xs \<Longrightarrow> x \<in> set xs \<Longrightarrow> count_list xs x = 1"
  by (induction xs) auto

section \<open>The example states\<close>

lemma quiet_env_no_reentry: "no_reentry (quiet_env E)"
  by (simp add: no_reentry_def quiet_env_def)

lemma quiet_env_Erase [simp]: "Erase (quiet_env E) = E"
  by (simp add: quiet_env_def)

lemma demo_Erase_ok: "Erase_ok (Erase demo_env)"
  by (simp add: demo_env_def Erase_swap_ok)

lemma demo_no_reentry: "no_reentry demo_env"
  by (simp add: demo_env_def quiet_env_no_reentry)

lemma demo_wf: "wf_state s_demo"
  by (simp add: wf_state_def s_demo_def)

lemma demo_reachable: "run demo_env demo_acts init_state = Inr s_demo"
  by (simp add: demo_acts_def demo_env_def s_demo_def init_state_def new_TCPConnecter_def
      TCPConnecter_ctor_def Connect_def INVALID_SOCKET_def KillAll_def Let_def fun_eq_iff)



lemma demo_killed_reachable: "run demo_env (demo_acts @ [Kill]) init_state = Inr s_demo_killed"
  by (simp add: demo_acts_def demo_env_def s_demo_killed_def s_demo_def init_state_def
      new_TCPConnecter_def TCPConnecter_ctor_def Connect_def INVALID_SOCKET_def KillAll_def
      Let_def fun_eq_iff)

lemma demo_killed_wf: "wf_state s_demo_killed"
  by (simp add: wf_state_def s_demo_killed_def s_demo_def)


section \<open>The claims about one poll\<close>





text \<open>
  C3. An attempt \<open>p\<close> of the registry with neither \<^verbatim>\<open>connected\<close> nor \<^verbatim>\<open>aborted\<close>
  set, killed or not: the poll keeps it in the registry, leaves the object as it
  is and produces no event that names it. Wherever the loop finds such an attempt in
  a slot, the body changes nothing and moves the iterator to the next slot.
\<close>

theorem C3_pending_is_kept:
  assumes "Erase_ok (Erase env)" "no_reentry env" "wf_state s"
    "length (tcp_connecters s) < fuel"
    and "p \<in> set (tcp_connecters s)" "heap s p = Some c"
    and "\<not> connected c" "\<not> aborted c"
  shows "(\<exists>s' new. CheckCallbacks fuel env s = Inr s' \<and> trace s' = trace s @ new
      \<and> p \<in> set (tcp_connecters s') \<and> heap s' p = Some c \<and> events_of p new = [])
    \<and> (\<forall>i t. i < length (tcp_connecters t) \<and> tcp_connecters t ! i = p \<and> heap t p = Some c
          \<longrightarrow> CheckCallbacks_body env i t = Inr (Suc i, t))"
proof
  from CheckCallbacks_reaps [OF assms(1-4)] obtain ps qs where
    c: "CheckCallbacks fuel env s = Inr (reaped s qs ps)" and
    p: "mset ps = mset (filter (terminal (heap s)) (tcp_connecters s))" and
    q: "mset qs = mset (filter (pending (heap s)) (tcp_connecters s))"
    by blast
  note P = reaps_mset_facts [OF assms(3) p]
  note Q = keeps_mset_facts [OF assms(3) q]
  have pe: "pending (heap s) p" using assms(6-8) by (simp add: pending_def)
  then have "\<not> terminal (heap s) p" using assms(6) by (simp add: terminal_def pending_def)
  then have np: "p \<notin> set ps" using P(2) by simp
  have "p \<in> set qs" using Q(2) pe assms(5) by simp
  moreover have "heap (reaped s qs ps) p = Some c" using np assms(6) by simp
  moreover have "events_of p (concat (map (reap_events (heap s)) ps)) = []"
    using np by (rule events_of_reaps_other)
  ultimately show "\<exists>s' new. CheckCallbacks fuel env s = Inr s' \<and> trace s' = trace s @ new
      \<and> p \<in> set (tcp_connecters s') \<and> heap s' p = Some c \<and> events_of p new = []"
    using c by (intro exI [of _ "reaped s qs ps"]) simp
next
  show "\<forall>i t. i < length (tcp_connecters t) \<and> tcp_connecters t ! i = p \<and> heap t p = Some c
          \<longrightarrow> CheckCallbacks_body env i t = Inr (Suc i, t)"
    using assms(7,8) by (auto intro!: body_pending simp: pending_def)
qed

theorem C3_pending_is_kept_witness:
  "(\<exists>s' new. CheckCallbacks 5 demo_env s_demo_killed = Inr s'
      \<and> trace s' = trace s_demo_killed @ new
      \<and> 2 \<in> set (tcp_connecters s') \<and> events_of 2 new = []
      \<and> heap s' 2 = Some \<lparr>connected = False, aborted = False, killed = True,
                           sock = - 1, address = 102\<rparr>)
    \<and> CheckCallbacks_body demo_env 2 s_demo_killed = Inr (3, s_demo_killed)"
proof -
  have "heap s_demo_killed 2 = Some \<lparr>connected = False, aborted = False, killed = True,
                           sock = - 1, address = 102\<rparr>"
    "length (tcp_connecters s_demo_killed) < 5" "2 \<in> set (tcp_connecters s_demo_killed)"
    "2 < length (tcp_connecters s_demo_killed)" "tcp_connecters s_demo_killed ! 2 = 2"
    by (simp_all add: s_demo_killed_def s_demo_def)
  with C3_pending_is_kept [OF demo_Erase_ok demo_no_reentry demo_killed_wf, of 5 2
      "\<lparr>connected = False, aborted = False, killed = True, sock = - 1, address = 102\<rparr>"]
  show ?thesis by (simp add: numeral_3_eq_3) blast
qed

text \<open>
  C9. One poll reaps every attempt of the registry that is terminal when the poll
  starts: each is erased, deleted once and no longer live afterwards. The registry
  is left with exactly the attempts that were pending, all still pending. Where the
  body of the loop reaps the attempt in slot \<open>i\<close>, the iterator stays at slot \<open>i\<close>,
  so the item that \<^verbatim>\<open>Erase\<close> put there is examined next.
\<close>

theorem C9_poll_reaps_every_terminal:
  assumes "Erase_ok (Erase env)" "no_reentry env" "wf_state s"
    "length (tcp_connecters s) < fuel"
  shows "(\<exists>s' new. CheckCallbacks fuel env s = Inr s' \<and> trace s' = trace s @ new
      \<and> mset (tcp_connecters s') = mset (filter (pending (heap s)) (tcp_connecters s))
      \<and> (\<forall>p\<in>set (tcp_connecters s'). pending (heap s') p)
      \<and> (\<forall>p\<in>set (tcp_connecters s). terminal (heap s) p \<longrightarrow>
            p \<notin> set (tcp_connecters s') \<and> heap s' p = None \<and> count_list (deleted new) p = 1))
    \<and> (\<forall>i t. i < length (tcp_connecters t) \<and> terminal (heap t) (tcp_connecters t ! i) \<longrightarrow>
          (\<exists>t'. CheckCallbacks_body env i t = Inr (i, t')
             \<and> tcp_connecters t' = Erase env i (tcp_connecters t)))"
proof
  from CheckCallbacks_reaps [OF assms(1-4)] obtain ps qs where
    c: "CheckCallbacks fuel env s = Inr (reaped s qs ps)" and
    p: "mset ps = mset (filter (terminal (heap s)) (tcp_connecters s))" and
    q: "mset qs = mset (filter (pending (heap s)) (tcp_connecters s))"
    by blast
  note P = reaps_mset_facts [OF assms(3) p]
  note Q = keeps_mset_facts [OF assms(3) q]
  let ?s' = "reaped s qs ps"
  let ?new = "concat (map (reap_events (heap s)) ps)"
  have d: "deleted ?new = ps" using P(2) by (intro deleted_reaps) simp
  have 1: "trace ?s' = trace s @ ?new" by simp
  have 2: "mset (tcp_connecters ?s') = mset (filter (pending (heap s)) (tcp_connecters s))"
    using q by simp
  have 3: "\<forall>p\<in>set (tcp_connecters ?s'). pending (heap ?s') p"
  proof
    fix x assume "x \<in> set (tcp_connecters ?s')"
    then have x: "x \<in> set (tcp_connecters s)" "pending (heap s) x" using Q(2) by auto
    then have "\<not> terminal (heap s) x" by (auto simp: pending_def terminal_def split: option.splits)
    then have "x \<notin> set ps" using P(2) by simp
    then show "pending (heap ?s') x" using x(2) by (simp add: pending_def)
  qed
  have 4: "\<forall>p\<in>set (tcp_connecters s). terminal (heap s) p \<longrightarrow>
            p \<notin> set (tcp_connecters ?s') \<and> heap ?s' p = None \<and> count_list (deleted ?new) p = 1"
  proof (intro ballI impI)
    fix x assume x: "x \<in> set (tcp_connecters s)" "terminal (heap s) x"
    then have "x \<in> set ps" using P(2) by simp
    moreover have "\<not> pending (heap s) x"
      using x(2) by (auto simp: pending_def terminal_def split: option.splits)
    then have "x \<notin> set qs" using Q(2) by simp
    moreover have "count_list ps x = 1" using P(1) \<open>x \<in> set ps\<close> by (rule count_list_distinct)
    ultimately show "x \<notin> set (tcp_connecters ?s') \<and> heap ?s' x = None \<and> count_list (deleted ?new) x = 1"
      by (simp add: d)
  qed
  show "\<exists>s' new. CheckCallbacks fuel env s = Inr s' \<and> trace s' = trace s @ new
      \<and> mset (tcp_connecters s') = mset (filter (pending (heap s)) (tcp_connecters s))
      \<and> (\<forall>p\<in>set (tcp_connecters s'). pending (heap s') p)
      \<and> (\<forall>p\<in>set (tcp_connecters s). terminal (heap s) p \<longrightarrow>
            p \<notin> set (tcp_connecters s') \<and> heap s' p = None \<and> count_list (deleted new) p = 1)"
    using c 1 2 3 4 by blast
next
  show "\<forall>i t. i < length (tcp_connecters t) \<and> terminal (heap t) (tcp_connecters t ! i) \<longrightarrow>
          (\<exists>t'. CheckCallbacks_body env i t = Inr (i, t')
             \<and> tcp_connecters t' = Erase env i (tcp_connecters t))"
    using body_terminal [OF assms(2)] by simp
qed

theorem C9_poll_reaps_every_terminal_witness:
  "\<exists>s' new. CheckCallbacks 5 demo_env s_demo = Inr s' \<and> trace s' = trace s_demo @ new
      \<and> tcp_connecters s' = [2] \<and> pending (heap s') 2
      \<and> heap s' 0 = None \<and> heap s' 1 = None \<and> heap s' 3 = None
      \<and> count_list (deleted new) 0 = 1 \<and> count_list (deleted new) 1 = 1
      \<and> count_list (deleted new) 3 = 1"
proof -
  have f: "filter (pending (heap s_demo)) (tcp_connecters s_demo) = [2]"
    by (simp add: s_demo_def pending_def)
  have t: "terminal (heap s_demo) 0" "terminal (heap s_demo) 1" "terminal (heap s_demo) 3"
    "set (tcp_connecters s_demo) = {0, 1, 2, 3}"
    by (auto simp: s_demo_def terminal_def)
  have l: "length (tcp_connecters s_demo) < 5" by (simp add: s_demo_def)
  from C9_poll_reaps_every_terminal [OF demo_Erase_ok demo_no_reentry demo_wf l]
  obtain s' new where a: "CheckCallbacks 5 demo_env s_demo = Inr s'" "trace s' = trace s_demo @ new"
    "mset (tcp_connecters s') = mset [2]"
    "\<forall>p\<in>set (tcp_connecters s'). pending (heap s') p"
    "\<forall>p\<in>{0, 1, 2, 3}. terminal (heap s_demo) p \<longrightarrow>
            p \<notin> set (tcp_connecters s') \<and> heap s' p = None \<and> count_list (deleted new) p = 1"
    unfolding f t(4) by blast
  from a(3) have "tcp_connecters s' = [2]" by simp
  with a t show ?thesis by simp
qed

lemma KillAll_loop_ok:
  "set ps \<subseteq> dom h \<Longrightarrow>
   KillAll_loop ps h = Inr (\<lambda>p. if p \<in> set ps then map_option (\<lambda>c. c\<lparr>killed := True\<rparr>) (h p) else h p)"
proof (induction ps arbitrary: h)
  case Nil
  then show ?case by simp
next
  case (Cons a ps)
  then obtain c where c: "h a = Some c" by auto
  have "set ps \<subseteq> dom (h(a \<mapsto> c\<lparr>killed := True\<rparr>))" using Cons.prems by auto
  from Cons.IH [OF this]
  have "KillAll_loop ps (h(a \<mapsto> c\<lparr>killed := True\<rparr>)) =
      Inr (\<lambda>p. if p \<in> set ps
            then map_option (\<lambda>c. c\<lparr>killed := True\<rparr>) ((h(a \<mapsto> c\<lparr>killed := True\<rparr>)) p)
            else (h(a \<mapsto> c\<lparr>killed := True\<rparr>)) p)" .
  moreover have "(\<lambda>p. if p \<in> set ps
            then map_option (\<lambda>c. c\<lparr>killed := True\<rparr>) ((h(a \<mapsto> c\<lparr>killed := True\<rparr>)) p)
            else (h(a \<mapsto> c\<lparr>killed := True\<rparr>)) p)
      = (\<lambda>p. if p \<in> set (a # ps) then map_option (\<lambda>c. c\<lparr>killed := True\<rparr>) (h p) else h p)"
    using c by (auto simp: fun_eq_iff)
  ultimately show ?case using c by simp
qed

text \<open>
  C4. \<^verbatim>\<open>KillAll\<close> on a registry without dangling pointers returns, having set
  \<^verbatim>\<open>killed\<close> on every attempt of the registry, whatever its outcome. Nothing else
  changes: the registry, the trace (no socket is closed, no attempt deleted, no
  handler called), the started workers, the set of live objects, and in every
  object the fields \<^verbatim>\<open>connected\<close>, \<^verbatim>\<open>aborted\<close>, \<^verbatim>\<open>sock\<close> and \<^verbatim>\<open>address\<close>.
  With an empty registry the state is returned as it is.
\<close>

theorem C4_KillAll_marks_only:
  assumes "set (tcp_connecters s) \<subseteq> dom (heap s)"
  shows "\<exists>s'. KillAll s = Inr s'
     \<and> tcp_connecters s' = tcp_connecters s \<and> trace s' = trace s
     \<and> threads s' = threads s \<and> next_id s' = next_id s
     \<and> dom (heap s') = dom (heap s)
     \<and> (\<forall>p c. heap s p = Some c \<longrightarrow>
           heap s' p = Some (c\<lparr>killed := (p \<in> set (tcp_connecters s) \<or> killed c)\<rparr>))
     \<and> (tcp_connecters s = [] \<longrightarrow> s' = s)"
proof -
  define h where "h = (\<lambda>p. if p \<in> set (tcp_connecters s)
      then map_option (\<lambda>c. c\<lparr>killed := True\<rparr>) (heap s p) else heap s p)"
  have k: "KillAll s = Inr (s\<lparr>heap := h\<rparr>)"
    using KillAll_loop_ok [OF assms] by (simp add: KillAll_def h_def)
  have d: "dom h = dom (heap s)"
    by (auto simp: h_def dom_def split: if_splits)
  have f: "h p = Some (c\<lparr>killed := (p \<in> set (tcp_connecters s) \<or> killed c)\<rparr>)"
    if "heap s p = Some c" for p c
    using that by (simp add: h_def)
  have e: "s\<lparr>heap := h\<rparr> = s" if "tcp_connecters s = []"
    using that by (simp add: h_def)
  show ?thesis
    using k d f e by (intro exI [of _ "s\<lparr>heap := h\<rparr>"]) simp
qed

theorem C4_KillAll_marks_only_witness:
  "\<exists>s'. KillAll s_demo = Inr s'
     \<and> tcp_connecters s' = [0, 1, 2, 3] \<and> trace s' = [] \<and> threads s' = {2} \<and> next_id s' = 4
     \<and> dom (heap s') = {0, 1, 2, 3}
     \<and> heap s' 0 = Some \<lparr>connected = True, aborted = False, killed = True, sock = 9, address = 100\<rparr>
     \<and> heap s' 1 = Some \<lparr>connected = True, aborted = False, killed = True, sock = 5, address = 101\<rparr>
     \<and> heap s' 2 = Some \<lparr>connected = False, aborted = False, killed = True, sock = - 1, address = 102\<rparr>
     \<and> heap s' 3 = Some \<lparr>connected = False, aborted = True, killed = True, sock = - 1, address = 103\<rparr>
     \<and> KillAll (init_state :: nat state) = Inr init_state"
proof -
  have d: "set (tcp_connecters s_demo) \<subseteq> dom (heap s_demo)"
    "set (tcp_connecters (init_state :: nat state)) \<subseteq> dom (heap (init_state :: nat state))"
    by (simp_all add: s_demo_def init_state_def)
  from C4_KillAll_marks_only [OF d(1)] obtain s' where a: "KillAll s_demo = Inr s'"
     "tcp_connecters s' = tcp_connecters s_demo" "trace s' = trace s_demo"
     "threads s' = threads s_demo" "next_id s' = next_id s_demo"
     "dom (heap s') = dom (heap s_demo)"
     "\<forall>p c. heap s_demo p = Some c \<longrightarrow>
           heap s' p = Some (c\<lparr>killed := (p \<in> set (tcp_connecters s_demo) \<or> killed c)\<rparr>)"
    by blast
  from C4_KillAll_marks_only [OF d(2)] have i: "KillAll (init_state :: nat state) = Inr init_state"
    by (auto simp: init_state_def)
  have h: "heap s_demo 0 = Some \<lparr>connected = True, aborted = False, killed = True, sock = 9, address = 100\<rparr>"
    "heap s_demo 1 = Some \<lparr>connected = True, aborted = False, killed = False, sock = 5, address = 101\<rparr>"
    "heap s_demo 2 = Some \<lparr>connected = False, aborted = False, killed = False, sock = - 1, address = 102\<rparr>"
    "heap s_demo 3 = Some \<lparr>connected = False, aborted = True, killed = False, sock = - 1, address = 103\<rparr>"
    by (simp_all add: s_demo_def)
  have "heap s' 0 = Some \<lparr>connected = True, aborted = False, killed = True, sock = 9, address = 100\<rparr>"
    "heap s' 1 = Some \<lparr>connected = True, aborted = False, killed = True, sock = 5, address = 101\<rparr>"
    "heap s' 2 = Some \<lparr>connected = False, aborted = False, killed = True, sock = - 1, address = 102\<rparr>"
    "heap s' 3 = Some \<lparr>connected = False, aborted = True, killed = True, sock = - 1, address = 103\<rparr>"
    using a(7) [rule_format, OF h(1)] a(7) [rule_format, OF h(2)]
      a(7) [rule_format, OF h(3)] a(7) [rule_format, OF h(4)]
    by (simp_all add: s_demo_def)
  moreover have "dom (heap s_demo) = {0, 1, 2, 3}" by (auto simp: s_demo_def)
  ultimately show ?thesis using a i by (simp add: s_demo_def)
qed




section \<open>Runs\<close>

lemma obj_ok_fresh:
  "obj_ok \<lparr>connected = False, aborted = False, killed = False, sock = INVALID_SOCKET, address = a\<rparr>"
  by (simp add: obj_ok_def)

lemma obj_ok_Connect: "\<not> connected c \<Longrightarrow> \<not> aborted c \<Longrightarrow> obj_ok (Connect r c)"
  by (simp add: obj_ok_def Connect_def Let_def)

lemma sys_inv_init: "sys_inv init_state"
  by (simp add: sys_inv_def init_state_def)

lemma sys_inv_Create:
  assumes "sys_inv s"
  shows "sys_inv (new_TCPConnecter started r addr s)"
proof -
  have n: "next_id s \<notin> dom (heap s)" using assms by (auto simp: sys_inv_def)
  then have t: "next_id s \<notin> threads s"
    using assms by (auto simp: sys_inv_def pending_def split: option.splits)
  show ?thesis
    using assms n t
    by (auto simp: sys_inv_def new_TCPConnecter_def TCPConnecter_ctor_def Let_def pending_def
        obj_ok_fresh obj_ok_Connect less_Suc_eq split: option.splits if_splits)
qed

lemma sys_inv_Worker:
  assumes "sys_inv s" "step env (Worker p r) s = Inr s'"
  shows "sys_inv s'"
proof -
  have p: "p \<in> threads s" using assms(2) by (simp split: if_splits)
  then obtain c where c: "heap s p = Some c" "\<not> connected c" "\<not> aborted c"
    using assms(1) by (auto simp: sys_inv_def pending_def split: option.splits)
  have s': "s' = s\<lparr>threads := threads s - {p}, heap := (heap s)(p \<mapsto> Connect r c)\<rparr>"
    using assms(2) p c by (simp add: ThreadEntry_def)
  show ?thesis
    using assms(1) c unfolding s'
    by (auto simp: sys_inv_def pending_def obj_ok_Connect split: option.splits)
qed

lemma body_frame:
  assumes "no_reentry env" "CheckCallbacks_body env i s = Inr (i', s')"
  shows "threads s' = threads s \<and> next_id s' = next_id s
    \<and> (\<forall>p. heap s' p = heap s p \<or> (terminal (heap s) p \<and> heap s' p = None))"
  using assms
  by (auto simp: CheckCallbacks_body_def no_reentry_def Let_def erase_at_def closesocket_def
      delete_obj_def call_OnConnect_def call_OnFailure_def terminal_def
      split: option.splits if_splits)

lemma loop_frame:
  assumes "no_reentry env"
  shows "CheckCallbacks_loop fuel env i s = Inr s' \<Longrightarrow>
    threads s' = threads s \<and> next_id s' = next_id s
    \<and> (\<forall>p. heap s' p = heap s p \<or> (terminal (heap s) p \<and> heap s' p = None))"
proof (induction fuel arbitrary: i s)
  case 0
  then show ?case by simp
next
  case (Suc n)
  show ?case
  proof (cases "i < length (tcp_connecters s)")
    case False
    with Suc.prems show ?thesis by simp
  next
    case True
    with Suc.prems obtain i1 s1 where
      b: "CheckCallbacks_body env i s = Inr (i1, s1)" and
      l: "CheckCallbacks_loop n env i1 s1 = Inr s'"
      by (auto split: sum.splits)
    note B = body_frame [OF assms b]
    note L = Suc.IH [OF l]
    have "heap s' p = heap s p \<or> (terminal (heap s) p \<and> heap s' p = None)" for p
    proof (cases "heap s1 p = heap s p")
      case True
      then have "terminal (heap s1) p = terminal (heap s) p" by (simp add: terminal_def)
      with True L show ?thesis by metis
    next
      case False
      with B have x: "terminal (heap s) p" "heap s1 p = None" by auto
      then have "\<not> terminal (heap s1) p" by (simp add: terminal_def)
      with L x show ?thesis by metis
    qed
    with B L show ?thesis by simp
  qed
qed

lemma sys_inv_Poll:
  assumes "no_reentry env" "sys_inv s" "CheckCallbacks fuel env s = Inr s'"
  shows "sys_inv s'"
proof -
  note L = loop_frame [OF assms(1) assms(3) [unfolded CheckCallbacks_def]]
  have h: "heap s' p = heap s p \<or> (terminal (heap s) p \<and> heap s' p = None)" for p
    using L by blast
  have 1: "dom (heap s') \<subseteq> {..<next_id s'}"
  proof
    fix p assume "p \<in> dom (heap s')"
    with h [of p] have "p \<in> dom (heap s)" by auto
    then show "p \<in> {..<next_id s'}" using assms(2) L by (auto simp: sys_inv_def)
  qed
  have 2: "\<forall>p\<in>threads s'. pending (heap s') p"
  proof
    fix p assume "p \<in> threads s'"
    then have "pending (heap s) p" using assms(2) L by (simp add: sys_inv_def)
    moreover from this have "\<not> terminal (heap s) p"
      by (auto simp: pending_def terminal_def split: option.splits)
    ultimately show "pending (heap s') p" using h [of p] by (simp add: pending_def)
  qed
  have 3: "\<forall>p c. heap s' p = Some c \<longrightarrow> obj_ok c"
  proof (intro allI impI)
    fix p c assume "heap s' p = Some c"
    with h [of p] have "heap s p = Some c" by auto
    then show "obj_ok c" using assms(2) by (auto simp: sys_inv_def)
  qed
  show ?thesis unfolding sys_inv_def using 1 2 3 by blast
qed

lemma KillAll_loop_dom: "KillAll_loop ps h = Inr h' \<Longrightarrow> set ps \<subseteq> dom h"
proof (induction ps arbitrary: h)
  case Nil
  then show ?case by simp
next
  case (Cons a ps)
  then obtain c where c: "h a = Some c" by (auto split: option.splits)
  with Cons.prems have "KillAll_loop ps (h(a \<mapsto> c\<lparr>killed := True\<rparr>)) = Inr h'" by simp
  from Cons.IH [OF this] c show ?case by (auto split: if_splits)
qed

lemma KillAll_heap:
  assumes "KillAll s = Inr s'"
  shows "threads s' = threads s \<and> next_id s' = next_id s \<and> tcp_connecters s' = tcp_connecters s
    \<and> trace s' = trace s
    \<and> (\<forall>p. heap s' p = heap s p \<or> (\<exists>c. heap s p = Some c \<and> heap s' p = Some (c\<lparr>killed := True\<rparr>)))"
proof -
  from assms obtain h where h: "KillAll_loop (tcp_connecters s) (heap s) = Inr h"
    and s': "s' = s\<lparr>heap := h\<rparr>"
    by (auto simp: KillAll_def split: sum.splits)
  from KillAll_loop_ok [OF KillAll_loop_dom [OF h]] h
  have "h = (\<lambda>p. if p \<in> set (tcp_connecters s)
      then map_option (\<lambda>c. c\<lparr>killed := True\<rparr>) (heap s p) else heap s p)" by simp
  then show ?thesis unfolding s' by (auto simp: map_option_case split: option.splits)
qed

lemma sys_inv_Kill:
  assumes "sys_inv s" "KillAll s = Inr s'"
  shows "sys_inv s'"
proof -
  note K = KillAll_heap [OF assms(2)]
  have h: "heap s' p = heap s p \<or> (\<exists>c. heap s p = Some c \<and> heap s' p = Some (c\<lparr>killed := True\<rparr>))" for p
    using K by blast
  have 1: "dom (heap s') \<subseteq> {..<next_id s'}"
  proof
    fix p assume "p \<in> dom (heap s')"
    with h [of p] have "p \<in> dom (heap s)" by auto
    then show "p \<in> {..<next_id s'}" using assms(1) K by (auto simp: sys_inv_def)
  qed
  have 2: "\<forall>p\<in>threads s'. pending (heap s') p"
  proof
    fix p assume "p \<in> threads s'"
    then have "pending (heap s) p" using assms(1) K by (simp add: sys_inv_def)
    then show "pending (heap s') p" using h [of p] by (auto simp: pending_def)
  qed
  have 3: "\<forall>p c. heap s' p = Some c \<longrightarrow> obj_ok c"
  proof (intro allI impI)
    fix p c assume c: "heap s' p = Some c"
    from h [of p] show "obj_ok c"
    proof
      assume "heap s' p = heap s p"
      with c assms(1) show ?thesis by (auto simp: sys_inv_def)
    next
      assume "\<exists>c. heap s p = Some c \<and> heap s' p = Some (c\<lparr>killed := True\<rparr>)"
      then obtain c0 where "heap s p = Some c0" "c = c0\<lparr>killed := True\<rparr>" using c by auto
      with assms(1) show ?thesis by (auto simp: sys_inv_def obj_ok_def)
    qed
  qed
  show ?thesis unfolding sys_inv_def using 1 2 3 by blast
qed

lemma sys_inv_step:
  assumes "no_reentry env" "sys_inv s" "step env a s = Inr s'"
  shows "sys_inv s'"
proof (cases a)
  case (Create started r addr)
  with assms show ?thesis by (auto simp: sys_inv_Create)
next
  case (Worker p r)
  with assms show ?thesis using sys_inv_Worker by blast
next
  case (Poll fuel)
  with assms show ?thesis using sys_inv_Poll by auto
next
  case Kill
  with assms show ?thesis using sys_inv_Kill by auto
qed

lemma sys_inv_run:
  assumes "no_reentry env"
  shows "sys_inv s \<Longrightarrow> run env acts s = Inr s' \<Longrightarrow> sys_inv s'"
proof (induction acts arbitrary: s)
  case Nil
  then show ?case by simp
next
  case (Cons a acts)
  then obtain s1 where "step env a s = Inr s1" "run env acts s1 = Inr s'"
    by (auto split: sum.splits)
  with Cons.IH sys_inv_step [OF assms Cons.prems(1)] show ?case by blast
qed

lemma step_keeps_outcome:
  assumes "no_reentry env" "sys_inv s" "step env a s = Inr s'"
    and "heap s p = Some c" "connected c \<or> aborted c" "heap s' p = Some c'"
  shows "connected c' = connected c \<and> aborted c' = aborted c \<and> sock c' = sock c"
proof (cases a)
  case (Create started r addr)
  have "p \<noteq> next_id s" using assms(2,4) by (auto simp: sys_inv_def)
  with Create assms(3,4,6) show ?thesis
    by (auto simp: new_TCPConnecter_def TCPConnecter_ctor_def Let_def split: if_splits)
next
  case (Worker q r)
  with assms(3) have q: "q \<in> threads s" by (simp split: if_splits)
  then have "pending (heap s) q" using assms(2) by (simp add: sys_inv_def)
  with assms(4,5) have "q \<noteq> p" by (auto simp: pending_def)
  with Worker assms(3,4,6) q show ?thesis
    by (auto simp: ThreadEntry_def split: option.splits)
next
  case (Poll fuel)
  with assms(3) have "CheckCallbacks_loop fuel env 0 s = Inr s'" by (simp add: CheckCallbacks_def)
  from loop_frame [OF assms(1) this] assms(4,6) show ?thesis by (metis option.inject option.distinct(1))
next
  case Kill
  with assms(3) have "KillAll s = Inr s'" by simp
  from KillAll_heap [OF this] have
    "heap s' p = heap s p \<or> (\<exists>c. heap s p = Some c \<and> heap s' p = Some (c\<lparr>killed := True\<rparr>))"
    by blast
  with assms(4,6) show ?thesis by auto
qed

lemma step_dead_stays_dead:
  assumes "no_reentry env" "sys_inv s" "step env a s = Inr s'"
    and "p < next_id s" "heap s p = None"
  shows "p < next_id s' \<and> heap s' p = None"
proof (cases a)
  case (Create started r addr)
  with assms(3,4,5) show ?thesis
    by (auto simp: new_TCPConnecter_def TCPConnecter_ctor_def Let_def split: if_splits)
next
  case (Worker q r)
  with assms(3) have q: "q \<in> threads s" by (simp split: if_splits)
  then have "pending (heap s) q" using assms(2) by (simp add: sys_inv_def)
  with assms(5) have "q \<noteq> p" by (auto simp: pending_def)
  with Worker assms(3,4,5) q show ?thesis
    by (auto simp: ThreadEntry_def split: option.splits)
next
  case (Poll fuel)
  with assms(3) have "CheckCallbacks_loop fuel env 0 s = Inr s'" by (simp add: CheckCallbacks_def)
  from loop_frame [OF assms(1) this] assms(4,5) show ?thesis by metis
next
  case Kill
  with assms(3) have "KillAll s = Inr s'" by simp
  from KillAll_heap [OF this] have
    "next_id s' = next_id s"
    "heap s' p = heap s p \<or> (\<exists>c. heap s p = Some c \<and> heap s' p = Some (c\<lparr>killed := True\<rparr>))"
    by auto
  with assms(4,5) show ?thesis by auto
qed

lemma run_dead_stays_dead:
  assumes "no_reentry env"
  shows "sys_inv s \<Longrightarrow> run env acts s = Inr s' \<Longrightarrow> p < next_id s \<Longrightarrow> heap s p = None \<Longrightarrow>
    heap s' p = None"
proof (induction acts arbitrary: s)
  case Nil
  then show ?case by simp
next
  case (Cons a acts)
  then obtain s1 where s1: "step env a s = Inr s1" "run env acts s1 = Inr s'"
    by (auto split: sum.splits)
  have i1: "sys_inv s1" using sys_inv_step [OF assms Cons.prems(1) s1(1)] .
  from step_dead_stays_dead [OF assms Cons.prems(1) s1(1) Cons.prems(3,4)]
  have "p < next_id s1" "heap s1 p = None" by simp_all
  from Cons.IH [OF i1 s1(2) this] show ?case .
qed

lemma step_next_id_mono:
  assumes "no_reentry env" "step env a s = Inr s'"
  shows "next_id s \<le> next_id s'"
proof (cases a)
  case (Create started r addr)
  with assms(2) show ?thesis
    by (auto simp: new_TCPConnecter_def TCPConnecter_ctor_def Let_def split: if_splits)
next
  case (Worker q r)
  with assms(2) show ?thesis
    by (auto simp: ThreadEntry_def split: option.splits if_splits)
next
  case (Poll fuel)
  with assms(2) have "CheckCallbacks_loop fuel env 0 s = Inr s'" by (simp add: CheckCallbacks_def)
  from loop_frame [OF assms(1) this] show ?thesis by simp
next
  case Kill
  with assms(2) have "KillAll s = Inr s'" by simp
  from KillAll_heap [OF this] show ?thesis by simp
qed

lemma run_keeps_outcome:
  assumes "no_reentry env"
  shows "sys_inv s \<Longrightarrow> run env acts s = Inr s' \<Longrightarrow> heap s p = Some c \<Longrightarrow>
    connected c \<or> aborted c \<Longrightarrow> heap s' p = Some c' \<Longrightarrow>
    connected c' = connected c \<and> aborted c' = aborted c \<and> sock c' = sock c"
proof (induction acts arbitrary: s c)
  case Nil
  then show ?case by simp
next
  case (Cons a acts)
  then obtain s1 where s1: "step env a s = Inr s1" "run env acts s1 = Inr s'"
    by (auto split: sum.splits)
  have i1: "sys_inv s1" using sys_inv_step [OF assms Cons.prems(1) s1(1)] .
  show ?case
  proof (cases "heap s1 p")
    case None
    have "p < next_id s" using Cons.prems(1,3) by (auto simp: sys_inv_def)
    then have "p < next_id s1" using step_next_id_mono [OF assms s1(1)] by simp
    from run_dead_stays_dead [OF assms i1 s1(2) this None]
    have "heap s' p = None" .
    with Cons.prems show ?thesis by simp
  next
    case (Some c1)
    from step_keeps_outcome [OF assms Cons.prems(1) s1(1) Cons.prems(3,4) Some]
    have k: "connected c1 = connected c \<and> aborted c1 = aborted c \<and> sock c1 = sock c" .
    then have "connected c1 \<or> aborted c1" using Cons.prems(4) by simp
    from Cons.IH [OF i1 s1(2) Some this Cons.prems(5)] k show ?thesis by simp
  qed
qed

text \<open>
  C6. When \<^verbatim>\<open>ThreadObject::New\<close> returns false, the constructor calls
  \<^verbatim>\<open>Connect\<close> itself: when it returns, the attempt is the last item of the
  registry, no worker was started for it, and it is terminal, connected with the
  socket \<open>r\<close> when \<^verbatim>\<open>address.Connect()\<close> returned a valid socket \<open>r\<close> and aborted
  otherwise. The next poll calls its handler and deletes it.
\<close>

theorem C6_no_thread_fallback:
  assumes "Erase_ok (Erase env)" "no_reentry env" "wf_state s" "this \<notin> dom (heap s)"
    "Suc (length (tcp_connecters s)) < fuel"
  shows "let s1 = TCPConnecter_ctor False r this addr s in
     tcp_connecters s1 = tcp_connecters s @ [this] \<and> threads s1 = threads s
     \<and> heap s1 this = Some \<lparr>connected = (r \<noteq> INVALID_SOCKET), aborted = (r = INVALID_SOCKET),
                             killed = False, sock = r, address = addr\<rparr>
     \<and> terminal (heap s1) this
     \<and> (\<exists>s' new pre post. CheckCallbacks fuel env s1 = Inr s' \<and> trace s' = trace s1 @ new
          \<and> new = pre
              @ [if r \<noteq> INVALID_SOCKET then Ev_OnConnect this r else Ev_OnFailure this,
                 Ev_delete this] @ post
          \<and> events_of this pre = [] \<and> events_of this post = []
          \<and> this \<notin> set (tcp_connecters s') \<and> heap s' this = None)"
proof -
  define s1 where "s1 = TCPConnecter_ctor False r this addr s"
  define c1 where "c1 = \<lparr>connected = (r \<noteq> INVALID_SOCKET), aborted = (r = INVALID_SOCKET),
                             killed = False, sock = r, address = addr\<rparr>"
  have 1: "tcp_connecters s1 = tcp_connecters s @ [this]" "threads s1 = threads s"
    by (simp_all add: s1_def TCPConnecter_ctor_def Let_def)
  have 2: "heap s1 this = Some c1"
    by (simp add: s1_def c1_def TCPConnecter_ctor_def Connect_def Let_def)
  have d: "dom (heap s1) = insert this (dom (heap s))"
    by (auto simp: s1_def TCPConnecter_ctor_def Let_def)
  have t: "terminal (heap s1) this" using 2 by (auto simp: terminal_def c1_def)
  have w: "wf_state s1" using assms(3,4) 1 d by (auto simp: wf_state_def)
  have l: "length (tcp_connecters s1) < fuel" "this \<in> set (tcp_connecters s1)"
    using assms(5) 1 by simp_all
  have r: "reap_events (heap s1) this
      = [if r \<noteq> INVALID_SOCKET then Ev_OnConnect this r else Ev_OnFailure this, Ev_delete this]"
    using 2 by (simp add: reap_events_def c1_def)
  from Poll_terminal [OF assms(1,2) w l t]
  have "\<exists>s' new pre post. CheckCallbacks fuel env s1 = Inr s' \<and> trace s' = trace s1 @ new
          \<and> new = pre
              @ [if r \<noteq> INVALID_SOCKET then Ev_OnConnect this r else Ev_OnFailure this,
                 Ev_delete this] @ post
          \<and> events_of this pre = [] \<and> events_of this post = []
          \<and> this \<notin> set (tcp_connecters s') \<and> heap s' this = None"
    unfolding r by metis
  with 1 2 t show ?thesis unfolding s1_def [symmetric] c1_def [symmetric] Let_def by blast
qed

theorem C6_no_thread_fallback_witness:
  "let s1 = TCPConnecter_ctor False 7 4 104 s_demo in
     tcp_connecters s1 = [0, 1, 2, 3, 4] \<and> threads s1 = {2}
     \<and> heap s1 4 = Some \<lparr>connected = True, aborted = False, killed = False, sock = 7,
                          address = 104\<rparr>
     \<and> terminal (heap s1) 4
     \<and> (\<exists>s' new pre post. CheckCallbacks 6 demo_env s1 = Inr s' \<and> trace s' = trace s1 @ new
          \<and> new = pre @ [Ev_OnConnect 4 7, Ev_delete 4] @ post
          \<and> events_of 4 pre = [] \<and> events_of 4 post = []
          \<and> 4 \<notin> set (tcp_connecters s') \<and> heap s' 4 = None)"
proof -
  have h: "4 \<notin> dom (heap s_demo)" "Suc (length (tcp_connecters s_demo)) < 6"
    "tcp_connecters s_demo = [0, 1, 2, 3]" "threads s_demo = {2}"
    by (simp_all add: s_demo_def)
  from C6_no_thread_fallback [OF demo_Erase_ok demo_no_reentry demo_wf h(1,2), of 7 104]
  show ?thesis by (simp add: h(3,4) INVALID_SOCKET_def Let_def)
qed



text \<open>
  C8. One execution of \<^verbatim>\<open>Connect\<close> on a pending attempt sets exactly one of
  \<^verbatim>\<open>connected\<close> and \<^verbatim>\<open>aborted\<close>. In a run (the handlers do not call back), a
  worker runs only for a pending attempt, makes it terminal and is gone afterwards;
  no live attempt has both flags set; and an attempt that is terminal keeps its
  two flags as they are for as long as it lives, whatever happens next.
\<close>

theorem C8_outcome_assigned_once:
  assumes "no_reentry env" "run env acts init_state = Inr s" "run env acts2 s = Inr s'"
    and "heap s p = Some c" "connected c \<or> aborted c" "heap s' p = Some c'"
  shows "connected c' = connected c \<and> aborted c' = aborted c \<and> \<not> (connected c \<and> aborted c)
     \<and> (\<forall>r (c0 :: 'a TCPConnecter). \<not> connected c0 \<and> \<not> aborted c0 \<longrightarrow>
            connected (Connect r c0) \<noteq> aborted (Connect r c0))
     \<and> (\<forall>q r t. step env (Worker q r) s = Inr t \<longrightarrow>
            pending (heap s) q \<and> terminal (heap t) q \<and> q \<notin> threads t)"
proof -
  have i: "sys_inv s" using sys_inv_run [OF assms(1) sys_inv_init assms(2)] .
  from run_keeps_outcome [OF assms(1) i assms(3-6)]
  have 1: "connected c' = connected c \<and> aborted c' = aborted c" by simp
  have 2: "\<not> (connected c \<and> aborted c)" using i assms(4) by (auto simp: sys_inv_def obj_ok_def)
  have 3: "connected (Connect r c0) \<noteq> aborted (Connect r c0)"
    if "\<not> connected c0 \<and> \<not> aborted c0" for r and c0 :: "'a TCPConnecter"
    using that by (simp add: Connect_def Let_def)
  have 4: "pending (heap s) q \<and> terminal (heap t) q \<and> q \<notin> threads t"
    if "step env (Worker q r) s = Inr t" for q r t
  proof -
    from that have q: "q \<in> threads s" by (simp split: if_splits)
    then have p: "pending (heap s) q" using i by (simp add: sys_inv_def)
    then obtain c0 where c0: "heap s q = Some c0" "\<not> connected c0" "\<not> aborted c0"
      by (auto simp: pending_def split: option.splits)
    from that q c0 have "t = s\<lparr>threads := threads s - {q}, heap := (heap s)(q \<mapsto> Connect r c0)\<rparr>"
      by (simp add: ThreadEntry_def)
    then show ?thesis using p by (simp add: terminal_def Connect_def Let_def)
  qed
  from 1 2 3 4 show ?thesis by blast
qed

theorem C8_outcome_assigned_once_witness:
  "\<exists>s' c'. run demo_env [Worker 2 7, Kill, Create True 3 104] s_demo = Inr s'
     \<and> heap s' 1 = Some c' \<and> connected c' \<and> \<not> aborted c'"
proof -
  have h: "heap s_demo 1 = Some \<lparr>connected = True, aborted = False, killed = False, sock = 5, address = 101\<rparr>"
    by (simp add: s_demo_def)
  define s' where "s' = s_demo\<lparr>threads := {4},
     heap := [0 \<mapsto> \<lparr>connected = True, aborted = False, killed = True, sock = 9, address = 100\<rparr>,
              1 \<mapsto> \<lparr>connected = True, aborted = False, killed = True, sock = 5, address = 101\<rparr>,
              2 \<mapsto> \<lparr>connected = True, aborted = False, killed = True, sock = 7, address = 102\<rparr>,
              3 \<mapsto> \<lparr>connected = False, aborted = True, killed = True, sock = - 1, address = 103\<rparr>,
              4 \<mapsto> \<lparr>connected = False, aborted = False, killed = False, sock = - 1, address = 104\<rparr>],
     tcp_connecters := [0, 1, 2, 3, 4], next_id := 5\<rparr>"
  have r: "run demo_env [Worker 2 7, Kill, Create True 3 104] s_demo = Inr s'"
    by (simp add: s'_def s_demo_def ThreadEntry_def Connect_def KillAll_def new_TCPConnecter_def
        TCPConnecter_ctor_def INVALID_SOCKET_def Let_def fun_eq_iff)
  have h': "heap s' 1 = Some \<lparr>connected = True, aborted = False, killed = True, sock = 5, address = 101\<rparr>"
    by (simp add: s'_def)
  from C8_outcome_assigned_once [OF demo_no_reentry demo_reachable r h _ h']
  show ?thesis using r h' by simp
qed

section \<open>Handlers that call back\<close>


lemma handler_ok_new: "handler_ok (new_TCPConnecter started r addr)"
  unfolding handler_ok_def
proof (intro allI impI)
  fix s :: "'a state"
  assume a: "alloc_ok s"
  let ?s' = "new_TCPConnecter started r addr s"
  have n: "next_id s \<notin> dom (heap s)" "next_id s \<notin> set (tcp_connecters s)"
    using a by (auto simp: alloc_ok_def wf_state_def)
  have r: "tcp_connecters ?s' = tcp_connecters s @ [next_id s]"
    "dom (heap ?s') = insert (next_id s) (dom (heap s))"
    "next_id ?s' = Suc (next_id s)" "trace ?s' = trace s"
    by (auto simp: new_TCPConnecter_def TCPConnecter_ctor_def Let_def)
  have "alloc_ok ?s'"
    using a n unfolding alloc_ok_def wf_state_def r by auto
  moreover have "\<forall>p. p < next_id s \<longrightarrow>
           (p \<in> dom (heap ?s')) = (p \<in> dom (heap s))
         \<and> (p \<in> set (tcp_connecters ?s')) = (p \<in> set (tcp_connecters s))"
    unfolding r by auto
  ultimately show "alloc_ok ?s' \<and> trace ?s' = trace s \<and> next_id s \<le> next_id ?s'
     \<and> (\<forall>p. p < next_id s \<longrightarrow>
           (p \<in> dom (heap ?s')) = (p \<in> dom (heap s))
         \<and> (p \<in> set (tcp_connecters ?s')) = (p \<in> set (tcp_connecters s)))"
    using r by simp
qed

lemma notify_and_delete:
  assumes E: "Erase_ok E" and f: "handler_ok f"
    and a: "alloc_ok s" and n: "notified_once s"
    and i: "i < length (tcp_connecters s)"
    and e: "notified [e] = [tcp_connecters s ! i]"
  defines "cur \<equiv> tcp_connecters s ! i"
  defines "s1 \<equiv> s\<lparr>tcp_connecters := E i (tcp_connecters s), trace := trace s @ [e]\<rparr>"
  shows "cur \<notin> set (tcp_connecters s1)"
    and "\<exists>s3. delete_obj cur (f s1) = Inr s3 \<and> alloc_ok s3 \<and> notified_once s3"
proof -
  have d: "distinct (tcp_connecters s)" and sub: "set (tcp_connecters s) \<subseteq> dom (heap s)"
    and lt: "dom (heap s) \<subseteq> {..<next_id s}"
    using a by (auto simp: alloc_ok_def wf_state_def)
  have cur_in: "cur \<in> set (tcp_connecters s)" using i by (simp add: cur_def)
  then have cur_dom: "cur \<in> dom (heap s)" and cur_lt: "cur < next_id s" using sub lt by auto
  have ys: "distinct (E i (tcp_connecters s))"
    "set (E i (tcp_connecters s)) = set (tcp_connecters s) - {cur}"
    using Erase_ok_distinct [OF E i d] by (simp_all add: cur_def)
  show c1: "cur \<notin> set (tcp_connecters s1)" using ys by (simp add: s1_def)
  have a1: "alloc_ok s1"
    using ys sub lt by (auto simp: alloc_ok_def wf_state_def s1_def)
  have r1: "heap s1 = heap s" "next_id s1 = next_id s" "trace s1 = trace s @ [e]"
    by (simp_all add: s1_def)
  from f a1 have F: "alloc_ok (f s1)" "trace (f s1) = trace s1" "next_id s1 \<le> next_id (f s1)"
    "\<And>p. p < next_id s1 \<Longrightarrow> (p \<in> dom (heap (f s1))) = (p \<in> dom (heap s1))"
    "\<And>p. p < next_id s1 \<Longrightarrow> (p \<in> set (tcp_connecters (f s1))) = (p \<in> set (tcp_connecters s1))"
    unfolding handler_ok_def by blast+
  have cur2: "cur \<in> dom (heap (f s1))" "cur \<notin> set (tcp_connecters (f s1))"
    using F(4,5) [of cur] cur_lt cur_dom c1 by (simp_all add: r1)
  define s3 where "s3 = (f s1)\<lparr>heap := (heap (f s1))(cur := None),
      trace := trace (f s1) @ [Ev_delete cur]\<rparr>"
  have del: "delete_obj cur (f s1) = Inr s3"
    using cur2(1) by (simp add: delete_obj_def s3_def)
  have a3: "alloc_ok s3"
    using F(1) cur2(2) by (auto simp: alloc_ok_def wf_state_def s3_def)
  have "notified ([e] @ [Ev_delete cur]) = [cur]"
    unfolding notified_append using e by (simp add: cur_def)
  then have nt: "notified (trace s3) = notified (trace s) @ [cur]"
    by (simp add: s3_def F(2) r1)
  have old: "p < next_id s \<and> p \<notin> dom (heap s)" if "p \<in> set (notified (trace s))" for p
    using n that by (simp add: notified_once_def)
  have "cur \<notin> set (notified (trace s))" using old cur_dom by blast
  then have d3: "distinct (notified (trace s3))"
    using n by (simp add: nt notified_once_def)
  have "p < next_id s3 \<and> p \<notin> dom (heap s3)" if "p \<in> set (notified (trace s3))" for p
  proof (cases "p = cur")
    case True
    then show ?thesis using cur_lt F(3) by (simp add: s3_def r1)
  next
    case False
    with that have "p \<in> set (notified (trace s))" by (simp add: nt)
    from old [OF this] F(4) [of p] F(3) show ?thesis by (auto simp: s3_def r1)
  qed
  with d3 have "notified_once s3" by (simp add: notified_once_def)
  with del a3 show "\<exists>s3. delete_obj cur (f s1) = Inr s3 \<and> alloc_ok s3 \<and> notified_once s3"
    by blast
qed

lemma silent_delete:
  assumes E: "Erase_ok E"
    and a: "alloc_ok s" and n: "notified_once s"
    and i: "i < length (tcp_connecters s)"
    and e: "notified es = []"
  defines "cur \<equiv> tcp_connecters s ! i"
  defines "s2 \<equiv> s\<lparr>tcp_connecters := E i (tcp_connecters s), trace := trace s @ es\<rparr>"
  shows "\<exists>s3. delete_obj cur s2 = Inr s3 \<and> alloc_ok s3 \<and> notified_once s3"
proof -
  have d: "distinct (tcp_connecters s)" and sub: "set (tcp_connecters s) \<subseteq> dom (heap s)"
    and lt: "dom (heap s) \<subseteq> {..<next_id s}"
    using a by (auto simp: alloc_ok_def wf_state_def)
  have cur_in: "cur \<in> set (tcp_connecters s)" using i by (simp add: cur_def)
  then have cur_dom: "cur \<in> dom (heap s)" using sub by auto
  have ys: "distinct (E i (tcp_connecters s))"
    "set (E i (tcp_connecters s)) = set (tcp_connecters s) - {cur}"
    using Erase_ok_distinct [OF E i d] by (simp_all add: cur_def)
  define s3 where "s3 = s2\<lparr>heap := (heap s2)(cur := None), trace := trace s2 @ [Ev_delete cur]\<rparr>"
  have del: "delete_obj cur s2 = Inr s3"
    using cur_dom by (simp add: delete_obj_def s3_def s2_def)
  have a3: "alloc_ok s3"
    using ys sub lt by (auto simp: alloc_ok_def wf_state_def s3_def s2_def)
  have "notified (trace s3) = notified (trace s)"
    using e by (simp add: s3_def s2_def)
  then have "notified_once s3"
    using n by (auto simp: notified_once_def s3_def s2_def)
  with del a3 show ?thesis by blast
qed

lemma body_reentrant:
  assumes E: "Erase_ok (Erase env)" and R: "reentrant_ok env"
    and a: "alloc_ok s" and n: "notified_once s"
    and i: "i < length (tcp_connecters s)"
  shows "\<exists>i' s'. CheckCallbacks_body env i s = Inr (i', s') \<and> alloc_ok s' \<and> notified_once s'
    \<and> (\<forall>env'. agree_unregistered env env' \<longrightarrow> CheckCallbacks_body env' i s = Inr (i', s'))"
proof -
  define cur where "cur = tcp_connecters s ! i"
  have "cur \<in> set (tcp_connecters s)" using i by (simp add: cur_def)
  then obtain c where c: "heap s cur = Some c"
    using a by (auto simp: alloc_ok_def wf_state_def)
  consider (killed) "(connected c \<or> aborted c) \<and> killed c"
    | (conn) "\<not> ((connected c \<or> aborted c) \<and> killed c)" "connected c"
    | (abrt) "\<not> ((connected c \<or> aborted c) \<and> killed c)" "\<not> connected c" "aborted c"
    | (pend) "\<not> connected c" "\<not> aborted c"
    by blast
  then show ?thesis
  proof cases
    case killed
    define es where "es = (if sock c \<noteq> INVALID_SOCKET then [Ev_closesocket (sock c)] else [])"
    define s2 where "s2 = s\<lparr>tcp_connecters := Erase env i (tcp_connecters s), trace := trace s @ es\<rparr>"
    have "notified es = []" by (simp add: es_def)
    from silent_delete [OF E a n i this] obtain s3 where
      s3: "delete_obj cur s2 = Inr s3" "alloc_ok s3" "notified_once s3"
      unfolding cur_def s2_def by blast
    have b: "CheckCallbacks_body env' i s = Inr (i, s3)" if "Erase env' = Erase env" for env' :: "'a env"
    proof -
      have "(if sock c \<noteq> INVALID_SOCKET then closesocket (sock c) (erase_at env' i s)
             else erase_at env' i s) = s2"
        using that by (simp add: s2_def es_def erase_at_def closesocket_def)
      then show ?thesis
        using killed c s3(1)
        by (simp add: CheckCallbacks_body_def cur_def [symmetric] Let_def)
    qed
    have "CheckCallbacks_body env i s = Inr (i, s3)" using b [of env] by simp
    moreover have "\<forall>env'. agree_unregistered env env' \<longrightarrow> CheckCallbacks_body env' i s = Inr (i, s3)"
      using b by (simp add: agree_unregistered_def)
    ultimately show ?thesis using s3 by blast
  next
    case conn
    define e where "e = Ev_OnConnect cur (sock c)"
    define s1 where "s1 = s\<lparr>tcp_connecters := Erase env i (tcp_connecters s), trace := trace s @ [e]\<rparr>"
    have f: "handler_ok (OnConnect env cur (sock c))" using R by (simp add: reentrant_ok_def)
    have "notified [e] = [tcp_connecters s ! i]" by (simp add: e_def cur_def)
    from notify_and_delete [OF E f a n i this] obtain s3 where
      u: "cur \<notin> set (tcp_connecters s1)" and
      s3: "delete_obj cur (OnConnect env cur (sock c) s1) = Inr s3" "alloc_ok s3" "notified_once s3"
      unfolding cur_def s1_def by blast
    have b: "CheckCallbacks_body env' i s = Inr (i, s3)"
      if "agree_unregistered env env'" for env' :: "'a env"
    proof -
      have "call_OnConnect env' cur (sock c) (erase_at env' i s) = OnConnect env' cur (sock c) s1"
        using that by (simp add: s1_def e_def erase_at_def call_OnConnect_def agree_unregistered_def)
      also have "\<dots> = OnConnect env cur (sock c) s1"
        using that u by (simp add: agree_unregistered_def)
      finally show ?thesis
        using conn c s3(1)
        by (simp add: CheckCallbacks_body_def cur_def [symmetric] Let_def)
    qed
    have "agree_unregistered env env" by (simp add: agree_unregistered_def)
    then have "CheckCallbacks_body env i s = Inr (i, s3)" by (rule b)
    with b s3 show ?thesis by blast
  next
    case abrt
    define e where "e = Ev_OnFailure cur"
    define s1 where "s1 = s\<lparr>tcp_connecters := Erase env i (tcp_connecters s), trace := trace s @ [e]\<rparr>"
    have f: "handler_ok (OnFailure env cur)" using R by (simp add: reentrant_ok_def)
    have "notified [e] = [tcp_connecters s ! i]" by (simp add: e_def cur_def)
    from notify_and_delete [OF E f a n i this] obtain s3 where
      u: "cur \<notin> set (tcp_connecters s1)" and
      s3: "delete_obj cur (OnFailure env cur s1) = Inr s3" "alloc_ok s3" "notified_once s3"
      unfolding cur_def s1_def by blast
    have b: "CheckCallbacks_body env' i s = Inr (i, s3)"
      if "agree_unregistered env env'" for env' :: "'a env"
    proof -
      have "call_OnFailure env' cur (erase_at env' i s) = OnFailure env' cur s1"
        using that by (simp add: s1_def e_def erase_at_def call_OnFailure_def agree_unregistered_def)
      also have "\<dots> = OnFailure env cur s1"
        using that u by (simp add: agree_unregistered_def)
      finally show ?thesis
        using abrt c s3(1)
        by (simp add: CheckCallbacks_body_def cur_def [symmetric] Let_def)
    qed
    have "agree_unregistered env env" by (simp add: agree_unregistered_def)
    then have "CheckCallbacks_body env i s = Inr (i, s3)" by (rule b)
    with b s3 show ?thesis by blast
  next
    case pend
    have "CheckCallbacks_body env' i s = Inr (Suc i, s)" for env' :: "'a env"
      using pend c by (simp add: CheckCallbacks_body_def cur_def [symmetric] Let_def)
    with a n show ?thesis by blast
  qed
qed

lemma loop_reentrant:
  assumes E: "Erase_ok (Erase env)" and R: "reentrant_ok env"
  shows "alloc_ok s \<Longrightarrow> notified_once s \<Longrightarrow>
    (\<forall>env'. agree_unregistered env env' \<longrightarrow>
        CheckCallbacks_loop fuel env' i s = CheckCallbacks_loop fuel env i s)
    \<and> (\<forall>s'. CheckCallbacks_loop fuel env i s = Inr s' \<longrightarrow> alloc_ok s' \<and> notified_once s')"
proof (induction fuel arbitrary: i s)
  case 0
  then show ?case by simp
next
  case (Suc k)
  show ?case
  proof (cases "i < length (tcp_connecters s)")
    case False
    with Suc.prems show ?thesis by simp
  next
    case True
    from body_reentrant [OF E R Suc.prems True] obtain i1 s1 where
      b: "CheckCallbacks_body env i s = Inr (i1, s1)" "alloc_ok s1" "notified_once s1"
        "\<And>env'. agree_unregistered env env' \<Longrightarrow> CheckCallbacks_body env' i s = Inr (i1, s1)"
      by blast
    note IH = Suc.IH [OF b(2,3), of i1]
    show ?thesis using True b(1,4) IH by simp
  qed
qed

text \<open>
  Every state of a run from the initial state has a well-formed registry, and no
  attempt was notified twice on the way.
\<close>

lemma no_reentry_reentrant_ok: "no_reentry env \<Longrightarrow> reentrant_ok env"
  by (simp add: no_reentry_def reentrant_ok_def handler_ok_def)

lemma step_alloc_ok:
  assumes E: "Erase_ok (Erase env)" and R: "reentrant_ok env"
    and a: "alloc_ok s" and n: "notified_once s" and st: "step env a s = Inr s'"
  shows "alloc_ok s' \<and> notified_once s'"
proof (cases a)
  case (Create started r addr)
  then have s': "s' = new_TCPConnecter started r addr s" using st by simp
  from handler_ok_new [of started r addr] a
  have h: "alloc_ok s'" "trace s' = trace s" "next_id s \<le> next_id s'"
    "\<And>p. p < next_id s \<Longrightarrow> (p \<in> dom (heap s')) = (p \<in> dom (heap s))"
    unfolding handler_ok_def s' by blast+
  have "notified_once s'"
    using n h(3,4) unfolding notified_once_def h(2) by (metis order_less_le_trans)
  with h(1) show ?thesis by simp
next
  case (Worker p r)
  with st have p: "p \<in> threads s" by (simp split: if_splits)
  from Worker st p obtain c where c: "heap s p = Some c"
    and s': "s' = s\<lparr>threads := threads s - {p}, heap := (heap s)(p \<mapsto> Connect r c)\<rparr>"
    by (auto simp: ThreadEntry_def split: option.splits)
  have d: "dom (heap s') = dom (heap s)" using c by (auto simp: s')
  have "alloc_ok s'" using a unfolding alloc_ok_def wf_state_def d by (simp add: s')
  moreover have "notified_once s'" using n unfolding notified_once_def d by (simp add: s')
  ultimately show ?thesis by simp
next
  case (Poll fuel)
  with st have "CheckCallbacks_loop fuel env 0 s = Inr s'" by (simp add: CheckCallbacks_def)
  with loop_reentrant [OF E R a n, of fuel 0] show ?thesis by simp
next
  case Kill
  with st have "KillAll s = Inr s'" by simp
  note K = KillAll_heap [OF this]
  have d: "dom (heap s') = dom (heap s)"
  proof (rule set_eqI)
    fix p
    from K have "heap s' p = heap s p \<or> (\<exists>c. heap s p = Some c \<and> heap s' p = Some (c\<lparr>killed := True\<rparr>))"
      by blast
    then show "(p \<in> dom (heap s')) = (p \<in> dom (heap s))"
      by (elim disjE exE conjE) (simp_all add: domIff)
  qed
  have "alloc_ok s'" using a K unfolding alloc_ok_def wf_state_def d by simp
  moreover have "notified_once s'" using n K unfolding notified_once_def d by simp
  ultimately show ?thesis by simp
qed

lemma run_alloc_ok:
  assumes E: "Erase_ok (Erase env)" and R: "reentrant_ok env"
  shows "alloc_ok s \<Longrightarrow> notified_once s \<Longrightarrow> run env acts s = Inr s' \<Longrightarrow>
    alloc_ok s' \<and> notified_once s'"
proof (induction acts arbitrary: s)
  case Nil
  then show ?case by simp
next
  case (Cons a acts)
  then obtain s1 where s1: "step env a s = Inr s1" "run env acts s1 = Inr s'"
    by (auto split: sum.splits)
  from step_alloc_ok [OF E R Cons.prems(1,2) s1(1)] Cons.IH s1(2) show ?case by blast
qed

lemma reachable_wf:
  assumes "Erase_ok (Erase env)" "reentrant_ok env" "run env acts init_state = Inr s"
  shows "wf_state s" and "notified_once s"
proof -
  have "alloc_ok (init_state :: 'a state)" "notified_once (init_state :: 'a state)"
    by (simp_all add: alloc_ok_def wf_state_def notified_once_def init_state_def)
  from run_alloc_ok [OF assms(1,2) this assms(3)]
  show "wf_state s" and "notified_once s" by (simp_all add: alloc_ok_def)
qed



end
